theory Spec2Isabelle
  imports Main "HOL-Library.Word"
begin

section \<open>Data model of package cspf (graph.go)\<close>

text \<open>
  \<^verbatim>\<open>type Vertex struct { ID string }\<close>: a vertex is its identifier; Go compares the
  struct by its one field. \<^verbatim>\<open>Vertex{}\<close>, the zero value, has the empty identifier.
\<close>

datatype Vertex = Vertex (ID: string)

text \<open>
  \<^verbatim>\<open>type Tag struct { Key string; Value interface{} }\<close>. The value type is arbitrary
  in Go; it is the type parameter \<open>'v\<close> here.
\<close>

record 'v Tag =
  Key :: string
  Value :: 'v

text \<open>
  \<^verbatim>\<open>type Edge struct { From, To Vertex; Cost uint64; Tags map[string]interface{} }\<close>.
  \<open>Tags\<close> is a Go map that the code only reads and fills; a nil map reads like the
  empty map, and both are \<open>Map.empty\<close> here.
\<close>

type_synonym uint64 = "64 word"

record 'v Edge =
  From :: Vertex
  To :: Vertex
  Cost :: uint64
  Tags :: "string \<rightharpoonup> 'v"

text \<open>
  The errors of the package. \<open>ErrDuplicateTagKey k\<close> is
  \<^verbatim>\<open>fmt.Errorf("%w: %s", ErrDuplicateTagKey, tag.Key)\<close>: the sentinel wrapped with the key.
  \<open>GvalError\<close> stands for any error value of the expression library (gval), which is
  not code of this package.
\<close>

datatype Error = ErrDuplicateTagKey string | ErrNilGraph | GvalError string

text \<open>
  \<^verbatim>\<open>gval.Evaluable\<close> is used through \<^verbatim>\<open>EvalBool(ctx, e.Tags)\<close> only: from the tags of
  an edge to a boolean or an error.
\<close>

type_synonym 'v Evaluable = "(string \<rightharpoonup> 'v) \<Rightarrow> Error + bool"

text \<open>
  \<^verbatim>\<open>type Graph struct { VertexSet map[Vertex][]Edge; eval gval.Evaluable }\<close>.
  \<open>VertexSet\<close> is \<open>None\<close> while the Go map is nil (the zero \<^verbatim>\<open>Graph{}\<close>), since
  \<^verbatim>\<open>initGraph\<close> tests for it. \<open>eval\<close> is \<open>None\<close> while the Go field is nil.
\<close>

record 'v Graph =
  VertexSet :: "(Vertex \<rightharpoonup> 'v Edge list) option"
  eval :: "'v Evaluable option"

definition emptyGraph :: "'v Graph" where
  "emptyGraph = \<lparr>VertexSet = None, eval = None\<rparr>"

text \<open>
  Reading the map: \<^verbatim>\<open>g.VertexSet[v]\<close> yields the nil slice for a missing key and for a
  nil map; \<open>vertices\<close> is the key set that \<^verbatim>\<open>range g.VertexSet\<close> runs over.
\<close>

definition edgesOf :: "'v Graph \<Rightarrow> Vertex \<Rightarrow> 'v Edge list" where
  "edgesOf g v =
     (case VertexSet g of
        None \<Rightarrow> []
      | Some m \<Rightarrow> (case m v of None \<Rightarrow> [] | Some es \<Rightarrow> es))"

definition vertices :: "'v Graph \<Rightarrow> Vertex set" where
  "vertices g = (case VertexSet g of None \<Rightarrow> {} | Some m \<Rightarrow> dom m)"

section \<open>Graph store: initGraph, AddNode, addEdge, AddEdge\<close>

definition initGraph :: "'v Graph \<Rightarrow> 'v Graph" where
  "initGraph g = (if VertexSet g = None then g\<lparr>VertexSet := Some Map.empty\<rparr> else g)"

text \<open>
  \<^verbatim>\<open>g.VertexSet[v] = es\<close>. The code writes only after \<^verbatim>\<open>initGraph\<close>, so the map is never
  nil at a write (lemma \<open>AddNode_VertexSet\<close> below).
\<close>

definition storeEdges :: "'v Graph \<Rightarrow> Vertex \<Rightarrow> 'v Edge list \<Rightarrow> 'v Graph" where
  "storeEdges g v es =
     g\<lparr>VertexSet := Some ((case VertexSet g of None \<Rightarrow> Map.empty | Some m \<Rightarrow> m)(v \<mapsto> es))\<rparr>"

definition AddNode :: "'v Graph \<Rightarrow> Vertex \<Rightarrow> 'v Graph" where
  "AddNode g v =
     (let g1 = initGraph g;
          found = (v \<in> vertices g1)
      in if \<not> found then storeEdges g1 v [] else g1)"

definition addEdge :: "'v Graph \<Rightarrow> 'v Edge \<Rightarrow> 'v Graph" where
  "addEdge g e =
     (let g1 = AddNode g (From e);
          g2 = AddNode g1 (To e);
          edges = edgesOf g2 (From e);
          edges' = edges @ [e]
      in storeEdges g2 (From e) edges')"

text \<open>
  The loop of \<^verbatim>\<open>AddEdge\<close> over the tags: it returns from \<^verbatim>\<open>AddEdge\<close> with the wrapped
  error at the first tag whose key is already in \<^verbatim>\<open>edge.Tags\<close>.
\<close>

fun fillTags :: "(string \<rightharpoonup> 'v) \<Rightarrow> 'v Tag list \<Rightarrow> Error + (string \<rightharpoonup> 'v)" where
  "fillTags m [] = Inr m"
| "fillTags m (tag # tags) =
     (if m (Key tag) \<noteq> None then Inl (ErrDuplicateTagKey (Key tag))
      else fillTags (m(Key tag \<mapsto> Value tag)) tags)"

text \<open>
  \<^verbatim>\<open>func (g *Graph) AddEdge(from, to Vertex, cost uint64, tags ...Tag) error\<close>, on a
  non-nil receiver. The receiver is mutated in place: the model returns the error
  (\<open>None\<close> is nil) and the receiver after the call.
\<close>

definition AddEdge ::
  "'v Graph \<Rightarrow> Vertex \<Rightarrow> Vertex \<Rightarrow> uint64 \<Rightarrow> 'v Tag list \<Rightarrow> Error option \<times> 'v Graph" where
  "AddEdge g from to cost tags =
     (let edge = \<lparr>From = from, To = to, Cost = cost, Tags = Map.empty\<rparr>
      in if length tags \<noteq> 0 then
           (case fillTags Map.empty tags of
              Inl err \<Rightarrow> (Some err, g)
            | Inr m \<Rightarrow> (None, addEdge g (edge\<lparr>Tags := m\<rparr>)))
         else (None, addEdge g edge))"

section \<open>SPF engine: SPF, getSmallestDistanceVertex, edgeSatisfiesConstranints\<close>

text \<open>\<^verbatim>\<open>const infinity = uint64(math.MaxUint64)\<close>.\<close>

definition infinity :: uint64 where
  "infinity = 18446744073709551615"

text \<open>
  Go does not specify the order in which \<^verbatim>\<open>range\<close> visits the keys of a map. The
  order is a parameter of the model: a \<open>range_order\<close> gives, for a key set, the list of
  keys in the order one run visits them. Within one call of \<^verbatim>\<open>SPF\<close> the key sets
  ranged over are the vertex set (its order does not matter for the initialisation),
  the shrinking unvisited sets, and the keys of \<^verbatim>\<open>prevSet\<close>.
\<close>

type_synonym range_order = "Vertex set \<Rightarrow> Vertex list"

text \<open>
  The three local maps of \<^verbatim>\<open>SPF\<close>. Reading a missing key yields the zero value of
  the element type: \<^verbatim>\<open>false\<close>, \<^verbatim>\<open>0\<close> and the nil slice.
\<close>

record 'v spf_state =
  unvisitedSet :: "Vertex \<rightharpoonup> bool"
  distSet :: "Vertex \<rightharpoonup> uint64"
  prevSet :: "Vertex \<rightharpoonup> 'v Edge list"

definition lookupUnvisited :: "(Vertex \<rightharpoonup> bool) \<Rightarrow> Vertex \<Rightarrow> bool" where
  "lookupUnvisited m v = (case m v of None \<Rightarrow> False | Some b \<Rightarrow> b)"

definition lookupDist :: "(Vertex \<rightharpoonup> uint64) \<Rightarrow> Vertex \<Rightarrow> uint64" where
  "lookupDist m v = (case m v of None \<Rightarrow> 0 | Some d \<Rightarrow> d)"

definition lookupPrev :: "(Vertex \<rightharpoonup> 'v Edge list) \<Rightarrow> Vertex \<Rightarrow> 'v Edge list" where
  "lookupPrev m v = (case m v of None \<Rightarrow> [] | Some es \<Rightarrow> es)"

text \<open>
  The initialisation loop \<^verbatim>\<open>for v := range g.VertexSet { ... }\<close> followed by
  \<^verbatim>\<open>distSet[from] = 0\<close>.
\<close>

definition initVertex :: "Vertex \<Rightarrow> 'v spf_state \<Rightarrow> 'v spf_state" where
  "initVertex v s =
     s\<lparr>unvisitedSet := (unvisitedSet s)(v \<mapsto> True),
       distSet := (distSet s)(v \<mapsto> infinity),
       prevSet := (prevSet s)(v \<mapsto> [])\<rparr>"

definition initState :: "range_order \<Rightarrow> 'v Graph \<Rightarrow> Vertex \<Rightarrow> 'v spf_state" where
  "initState ord g from =
     (let s = fold initVertex (ord (vertices g))
                \<lparr>unvisitedSet = Map.empty, distSet = Map.empty, prevSet = Map.empty\<rparr>
      in s\<lparr>distSet := (distSet s)(from \<mapsto> 0)\<rparr>)"

text \<open>
  \<^verbatim>\<open>getSmallestDistanceVertex\<close>: one pass over the unvisited keys, keeping the first
  vertex whose distance is strictly below the smallest seen so far; it starts from
  \<^verbatim>\<open>infinity\<close> and the zero vertex \<^verbatim>\<open>Vertex{}\<close>.
\<close>

definition smallerDist ::
  "(Vertex \<rightharpoonup> uint64) \<Rightarrow> Vertex \<Rightarrow> uint64 \<times> Vertex \<Rightarrow> uint64 \<times> Vertex" where
  "smallerDist dists v acc =
     (let smallestDist = fst acc; closestVertex = snd acc; dist = lookupDist dists v
      in if dist < smallestDist then (dist, v) else (smallestDist, closestVertex))"

definition getSmallestDistanceVertex ::
  "range_order \<Rightarrow> (Vertex \<rightharpoonup> bool) \<Rightarrow> (Vertex \<rightharpoonup> uint64) \<Rightarrow> Vertex" where
  "getSmallestDistanceVertex ord unvisited dists =
     snd (fold (smallerDist dists) (ord (dom unvisited)) (infinity, Vertex ''''))"

text \<open>
  \<^verbatim>\<open>edgeSatisfiesConstranints\<close> (the name is the source's) returns \<^verbatim>\<open>(bool, error)\<close>.
\<close>

definition edgeSatisfiesConstranints :: "'v Graph \<Rightarrow> 'v Edge \<Rightarrow> bool \<times> Error option" where
  "edgeSatisfiesConstranints g e =
     (case eval g of
        None \<Rightarrow> (True, None)
      | Some ev \<Rightarrow>
          (case ev (Tags e) of
             Inl err \<Rightarrow> (False, Some err)
           | Inr match \<Rightarrow> (match, None)))"

text \<open>
  The body of the inner loop \<^verbatim>\<open>for _, edge := range g.VertexSet[closestVertex]\<close> for one
  edge. \<open>Inl err\<close> is the \<^verbatim>\<open>return nil, err\<close> that leaves \<^verbatim>\<open>SPF\<close>. The addition is
  that of \<^verbatim>\<open>uint64\<close>: it wraps around.
\<close>

definition relaxEdge ::
  "'v Graph \<Rightarrow> Vertex \<Rightarrow> 'v Edge \<Rightarrow> 'v spf_state \<Rightarrow> Error + 'v spf_state" where
  "relaxEdge g closestVertex edge s =
     (if lookupUnvisited (unvisitedSet s) (To edge) then
        (case edgeSatisfiesConstranints g edge of
           (satisfied, Some err) \<Rightarrow> Inl err
         | (satisfied, None) \<Rightarrow>
             if satisfied then
               (let distFromNeighbor = lookupDist (distSet s) closestVertex + Cost edge
                in if distFromNeighbor \<le> lookupDist (distSet s) (To edge) then
                     Inr (s\<lparr>distSet := (distSet s)(To edge \<mapsto> distFromNeighbor),
                            prevSet := (prevSet s)(To edge \<mapsto>
                                         lookupPrev (prevSet s) (To edge) @ [edge])\<rparr>)
                   else Inr s)
             else Inr s)
      else Inr s)"

fun relaxEdges ::
  "'v Graph \<Rightarrow> Vertex \<Rightarrow> 'v Edge list \<Rightarrow> 'v spf_state \<Rightarrow> Error + 'v spf_state" where
  "relaxEdges g closestVertex [] s = Inr s"
| "relaxEdges g closestVertex (edge # edges) s =
     (case relaxEdge g closestVertex edge s of
        Inl err \<Rightarrow> Inl err
      | Inr s' \<Rightarrow> relaxEdges g closestVertex edges s')"

lemma relaxEdge_unvisitedSet:
  "relaxEdge g c e s = Inr s' \<Longrightarrow> unvisitedSet s' = unvisitedSet s"
  by (auto simp: relaxEdge_def Let_def split: if_splits prod.splits option.splits)

lemma relaxEdges_unvisitedSet:
  "relaxEdges g c es s = Inr s' \<Longrightarrow> unvisitedSet s' = unvisitedSet s"
  by (induction es arbitrary: s) (auto split: sum.splits dest: relaxEdge_unvisitedSet)

text \<open>
  The outer loop \<^verbatim>\<open>for len(unvisitedSet) > 0 { ... }\<close>. It stops with \<^verbatim>\<open>break\<close> when
  deleting the selected vertex did not shrink the set, and leaves \<^verbatim>\<open>SPF\<close> at the first
  error. Each further round has removed one key, which is the termination argument.
\<close>

function spfLoop :: "range_order \<Rightarrow> 'v Graph \<Rightarrow> 'v spf_state \<Rightarrow> Error + 'v spf_state" where
  "spfLoop ord g s =
     (if card (dom (unvisitedSet s)) > 0 then
        (let setSize = card (dom (unvisitedSet s));
             closestVertex = getSmallestDistanceVertex ord (unvisitedSet s) (distSet s);
             s1 = s\<lparr>unvisitedSet := (unvisitedSet s)(closestVertex := None)\<rparr>
         in if setSize = card (dom (unvisitedSet s1)) then Inr s1
            else (case relaxEdges g closestVertex (edgesOf g closestVertex) s1 of
                    Inl err \<Rightarrow> Inl err
                  | Inr s2 \<Rightarrow> spfLoop ord g s2))
      else Inr s)"
  by pat_completeness auto
termination
proof (relation "measure (\<lambda>(ord, g, s). card (dom (unvisitedSet s)))")
  show "wf (measure (\<lambda>(ord, g, s). card (dom (unvisitedSet s))))" by simp
next
  fix ord :: range_order and g :: "'v Graph" and s :: "'v spf_state"
    and setSize closestVertex s1 s2
  assume pos: "0 < card (dom (unvisitedSet s))"
    and c: "closestVertex = getSmallestDistanceVertex ord (unvisitedSet s) (distSet s)"
    and s1: "s1 = s\<lparr>unvisitedSet := (unvisitedSet s)(closestVertex := None)\<rparr>"
    and ne: "setSize \<noteq> card (dom (unvisitedSet s1))"
    and sz: "setSize = card (dom (unvisitedSet s))"
    and r: "relaxEdges g closestVertex (edgesOf g closestVertex) s1 = Inr s2"
  from pos have fin: "finite (dom (unvisitedSet s))" by (rule card_ge_0_finite)
  from r have u: "unvisitedSet s2 = unvisitedSet s1" by (rule relaxEdges_unvisitedSet)
  have "dom (unvisitedSet s1) = dom (unvisitedSet s) - {closestVertex}"
    by (simp add: s1)
  with ne sz have "closestVertex \<in> dom (unvisitedSet s)"
    by (metis Diff_empty Diff_insert0)
  with fin have "card (dom (unvisitedSet s) - {closestVertex}) < card (dom (unvisitedSet s))"
    by (rule card_Diff1_less)
  then show "((ord, g, s2), (ord, g, s)) \<in> measure (\<lambda>(ord, g, s). card (dom (unvisitedSet s)))"
    by (simp add: u s1)
qed

declare spfLoop.simps [simp del]

text \<open>
  The result construction: \<^verbatim>\<open>for _, edges := range prevSet { for _, edge := range edges
  { SPF.addEdge(edge) } }\<close> on a fresh \<^verbatim>\<open>Graph{}\<close>.
\<close>

definition buildResult :: "range_order \<Rightarrow> (Vertex \<rightharpoonup> 'v Edge list) \<Rightarrow> 'v Graph" where
  "buildResult ord prevs =
     fold (\<lambda>v G. fold (\<lambda>edge G. addEdge G edge) (lookupPrev prevs v) G)
       (ord (dom prevs)) emptyGraph"

text \<open>
  \<^verbatim>\<open>func (g *Graph) SPF(from, to Vertex) (*Graph, error)\<close>. The receiver is a pointer:
  \<open>None\<close> is the nil receiver. The result pair is the Go pair, \<open>None\<close> for nil.
  \<^verbatim>\<open>_, ok := prevSet[to]\<close> tests whether \<^verbatim>\<open>to\<close> is a key of the map.
\<close>

definition SPF ::
  "range_order \<Rightarrow> 'v Graph option \<Rightarrow> Vertex \<Rightarrow> Vertex \<Rightarrow> 'v Graph option \<times> Error option" where
  "SPF ord gp from to =
     (case gp of
        None \<Rightarrow> (None, Some ErrNilGraph)
      | Some g \<Rightarrow>
          (case spfLoop ord g (initState ord g from) of
             Inl err \<Rightarrow> (None, Some err)
           | Inr s \<Rightarrow>
               (let ok = (to \<in> dom (prevSet s))
                in if ok \<or> to = from then (Some (buildResult ord (prevSet s)), None)
                   else (Some emptyGraph, None))))"

section \<open>Constrained computation: CSPF\<close>

text \<open>
  \<^verbatim>\<open>func (g *Graph) CSPF(from, to Vertex, exp string) (*Graph, error)\<close>. The parser
  \<^verbatim>\<open>gval.Full().NewEvaluable\<close> belongs to the expression library and is the parameter
  \<open>NewEvaluable\<close>. \<^verbatim>\<open>CSPF\<close> assigns \<^verbatim>\<open>g.eval\<close>, so the model returns the receiver after
  the call next to the result pair.
\<close>

definition CSPF ::
  "(string \<Rightarrow> Error + 'v Evaluable) \<Rightarrow> range_order \<Rightarrow> 'v Graph option \<Rightarrow> Vertex \<Rightarrow> Vertex
     \<Rightarrow> string \<Rightarrow> ('v Graph option \<times> Error option) \<times> 'v Graph option" where
  "CSPF NewEvaluable ord gp from to exp =
     (case gp of
        None \<Rightarrow> ((None, Some ErrNilGraph), None)
      | Some g \<Rightarrow>
          (case NewEvaluable exp of
             Inl err \<Rightarrow> ((None, Some err), Some g)
           | Inr ev \<Rightarrow>
               (let g' = g\<lparr>eval := Some ev\<rparr>
                in (SPF ord (Some g') from to, Some g'))))"

section \<open>Path enumerator: Paths\<close>

text \<open>
  The state that the closure \<^verbatim>\<open>dfs\<close> shares with \<^verbatim>\<open>Paths\<close>: the map \<^verbatim>\<open>visited\<close>, the
  slice \<^verbatim>\<open>path\<close> and the result \<^verbatim>\<open>paths\<close>. The slices are lists here. That agrees
  with Go's slices on this code: \<^verbatim>\<open>path = path[1:]\<close> moves the start of the slice
  forward and never its end backward, so within one backing array \<^verbatim>\<open>append\<close> writes
  only beyond the end of every slice recorded in \<^verbatim>\<open>paths\<close>, and a recorded path is
  never overwritten. The section after this one runs \<^verbatim>\<open>dfs\<close> on backing arrays,
  and a later one proves that it reads out as the run on lists.
\<close>

record 'v dfs_state =
  visited :: "Vertex \<rightharpoonup> bool"
  path :: "'v Edge list"
  paths :: "'v Edge list list"

definition lookupVisited :: "(Vertex \<rightharpoonup> bool) \<Rightarrow> Vertex \<Rightarrow> bool" where
  "lookupVisited m v = (case m v of None \<Rightarrow> False | Some b \<Rightarrow> b)"

text \<open>
  \<^verbatim>\<open>dfs\<close> and its loop over \<^verbatim>\<open>g.VertexSet[v]\<close>. The first argument bounds the depth of
  nested calls of \<^verbatim>\<open>dfs\<close>: \<open>None\<close> means that the bound was reached before the call
  returned. That \<^verbatim>\<open>dfs\<close> returns is therefore a statement to prove, not a property of
  the definition.
\<close>

fun dfs :: "nat \<Rightarrow> 'v Graph \<Rightarrow> Vertex \<Rightarrow> Vertex \<Rightarrow> 'v Edge option \<Rightarrow> 'v dfs_state
              \<Rightarrow> 'v dfs_state option"
  and dfsEdges :: "nat \<Rightarrow> 'v Graph \<Rightarrow> Vertex \<Rightarrow> 'v Edge list \<Rightarrow> 'v dfs_state
              \<Rightarrow> 'v dfs_state option" where
  "dfs 0 g to v edge s = None"
| "dfs (Suc n) g to v edge s =
     (let s1 = s\<lparr>visited := (visited s)(v \<mapsto> True)\<rparr>;
          s2 = (case edge of None \<Rightarrow> s1 | Some e \<Rightarrow> s1\<lparr>path := path s1 @ [e]\<rparr>);
          r = (if v = to then Some (s2\<lparr>paths := paths s2 @ [path s2]\<rparr>)
               else dfsEdges n g to (edgesOf g v) s2)
      in case r of
           None \<Rightarrow> None
         | Some s3 \<Rightarrow>
             (let s4 = (if length (path s3) > 0 then s3\<lparr>path := tl (path s3)\<rparr> else s3)
              in Some (s4\<lparr>visited := (visited s4)(v \<mapsto> False)\<rparr>)))"
| "dfsEdges n g to [] s = Some s"
| "dfsEdges n g to (edge # edges) s =
     (if \<not> lookupVisited (visited s) (To edge) then
        (case dfs n g to (To edge) (Some edge) s of
           None \<Rightarrow> None
         | Some s' \<Rightarrow> dfsEdges n g to edges s')
      else dfsEdges n g to edges s)"

text \<open>
  \<^verbatim>\<open>func (g *Graph) Paths(from, to Vertex) (paths [][]Edge)\<close>; the nil slice is the
  empty list.
\<close>

definition Paths :: "nat \<Rightarrow> 'v Graph option \<Rightarrow> Vertex \<Rightarrow> Vertex \<Rightarrow> 'v Edge list list option" where
  "Paths n gp from to =
     (case gp of
        None \<Rightarrow> Some []
      | Some g \<Rightarrow>
          (case dfs n g to from None \<lparr>visited = Map.empty, path = [], paths = []\<rparr> of
             None \<Rightarrow> None
           | Some s \<Rightarrow> Some (paths s)))"

section \<open>The slices of Paths on backing arrays\<close>

text \<open>
  A second reading of \<^verbatim>\<open>dfs\<close>, with Go's slices as they are: a slice is a window
  (offset, length, capacity) on a backing array, and copying a slice copies the window,
  not the array. \<open>heap\<close> holds the backing arrays by number, \<open>nextArr\<close> is the next
  free number. \<^verbatim>\<open>append(path, e)\<close> writes in place behind the window when the capacity
  allows, and otherwise copies the window into a new array of \<open>grow (len + 1)\<close> cells;
  Go leaves the size of the new array to the implementation, so \<open>grow\<close> is a
  parameter. \<^verbatim>\<open>path[1:]\<close> moves the start of the window by one. \<^verbatim>\<open>append(paths, path)\<close>
  records the window. The initial \<^verbatim>\<open>[]Edge{}\<close> is the empty window on an array without
  cells.
\<close>

record slice =
  s_arr :: nat
  s_off :: nat
  s_len :: nat
  s_cap :: nat

record 'v arr_state =
  visitedA :: "Vertex \<rightharpoonup> bool"
  heap :: "nat \<Rightarrow> 'v Edge list"
  nextArr :: nat
  pathA :: slice
  pathsA :: "slice list"

definition zeroEdge :: "'v Edge" where
  "zeroEdge = \<lparr>From = Vertex '''', To = Vertex '''', Cost = 0, Tags = Map.empty\<rparr>"

definition readSlice :: "(nat \<Rightarrow> 'v Edge list) \<Rightarrow> slice \<Rightarrow> 'v Edge list" where
  "readSlice h p = take (s_len p) (drop (s_off p) (h (s_arr p)))"

definition appendA :: "(nat \<Rightarrow> nat) \<Rightarrow> 'v Edge \<Rightarrow> 'v arr_state \<Rightarrow> 'v arr_state" where
  "appendA grow e st =
     (let p = pathA st
      in if s_len p < s_cap p then
           st\<lparr>heap := (heap st)(s_arr p := (heap st (s_arr p))[s_off p + s_len p := e]),
              pathA := p\<lparr>s_len := s_len p + 1\<rparr>\<rparr>
         else
           (let c = grow (s_len p + 1);
                a = nextArr st;
                contents = readSlice (heap st) p @ [e] @ replicate (c - (s_len p + 1)) zeroEdge
            in st\<lparr>heap := (heap st)(a := contents),
                  nextArr := a + 1,
                  pathA := \<lparr>s_arr = a, s_off = 0, s_len = s_len p + 1, s_cap = c\<rparr>\<rparr>))"

definition sliceFrom1 :: "slice \<Rightarrow> slice" where
  "sliceFrom1 p = p\<lparr>s_off := s_off p + 1, s_len := s_len p - 1, s_cap := s_cap p - 1\<rparr>"

fun dfsA :: "(nat \<Rightarrow> nat) \<Rightarrow> nat \<Rightarrow> 'v Graph \<Rightarrow> Vertex \<Rightarrow> Vertex \<Rightarrow> 'v Edge option
               \<Rightarrow> 'v arr_state \<Rightarrow> 'v arr_state option"
  and dfsEdgesA :: "(nat \<Rightarrow> nat) \<Rightarrow> nat \<Rightarrow> 'v Graph \<Rightarrow> Vertex \<Rightarrow> 'v Edge list
               \<Rightarrow> 'v arr_state \<Rightarrow> 'v arr_state option" where
  "dfsA grow 0 g to v edge st = None"
| "dfsA grow (Suc n) g to v edge st =
     (let st1 = st\<lparr>visitedA := (visitedA st)(v \<mapsto> True)\<rparr>;
          st2 = (case edge of None \<Rightarrow> st1 | Some e \<Rightarrow> appendA grow e st1);
          r = (if v = to then Some (st2\<lparr>pathsA := pathsA st2 @ [pathA st2]\<rparr>)
               else dfsEdgesA grow n g to (edgesOf g v) st2)
      in case r of
           None \<Rightarrow> None
         | Some st3 \<Rightarrow>
             (let st4 = (if s_len (pathA st3) > 0
                         then st3\<lparr>pathA := sliceFrom1 (pathA st3)\<rparr> else st3)
              in Some (st4\<lparr>visitedA := (visitedA st4)(v \<mapsto> False)\<rparr>)))"
| "dfsEdgesA grow n g to [] st = Some st"
| "dfsEdgesA grow n g to (edge # edges) st =
     (if \<not> lookupVisited (visitedA st) (To edge) then
        (case dfsA grow n g to (To edge) (Some edge) st of
           None \<Rightarrow> None
         | Some st' \<Rightarrow> dfsEdgesA grow n g to edges st')
      else dfsEdgesA grow n g to edges st)"

definition initArr :: "'v arr_state" where
  "initArr = \<lparr>visitedA = Map.empty, heap = (\<lambda>a. []), nextArr = 1,
              pathA = \<lparr>s_arr = 0, s_off = 0, s_len = 0, s_cap = 0\<rparr>, pathsA = []\<rparr>"

definition PathsA ::
  "(nat \<Rightarrow> nat) \<Rightarrow> nat \<Rightarrow> 'v Graph option \<Rightarrow> Vertex \<Rightarrow> Vertex \<Rightarrow> 'v Edge list list option" where
  "PathsA grow n gp from to =
     (case gp of
        None \<Rightarrow> Some []
      | Some g \<Rightarrow>
          (case dfsA grow n g to from None initArr of
             None \<Rightarrow> None
           | Some st \<Rightarrow> Some (map (readSlice (heap st)) (pathsA st))))"

text \<open>
  \<open>abstr\<close> reads the windows out as lists. \<open>slices_ok\<close> is what every reachable state
  satisfies: the window of \<^verbatim>\<open>path\<close> ends where its capacity says the array ends, and a
  recorded window on the array of \<^verbatim>\<open>path\<close> ends no later than \<^verbatim>\<open>path\<close> does.
\<close>

definition abstr :: "'v arr_state \<Rightarrow> 'v dfs_state" where
  "abstr st = \<lparr>visited = visitedA st, path = readSlice (heap st) (pathA st),
               paths = map (readSlice (heap st)) (pathsA st)\<rparr>"

definition slices_ok :: "'v arr_state \<Rightarrow> bool" where
  "slices_ok st = (let p = pathA st; h = heap st in
     s_off p + s_cap p = length (h (s_arr p)) \<and> s_len p \<le> s_cap p \<and> s_arr p < nextArr st
     \<and> (\<forall>r \<in> set (pathsA st). s_arr r < nextArr st
            \<and> s_off r + s_len r \<le> length (h (s_arr r))
            \<and> (s_arr r = s_arr p \<longrightarrow> s_off r + s_len r \<le> s_off p + s_len p)))"

definition refines :: "'v arr_state option \<Rightarrow> 'v dfs_state option \<Rightarrow> bool" where
  "refines a b = (case a of None \<Rightarrow> b = None | Some st' \<Rightarrow> slices_ok st' \<and> b = Some (abstr st'))"

section \<open>Properties of the graph store\<close>

lemma vertices_emptyGraph [simp]: "vertices emptyGraph = {}"
  by (simp add: vertices_def emptyGraph_def)

lemma edgesOf_emptyGraph [simp]: "edgesOf emptyGraph v = []"
  by (simp add: edgesOf_def emptyGraph_def)

lemma eval_emptyGraph [simp]: "eval emptyGraph = None"
  by (simp add: emptyGraph_def)

lemma vertices_initGraph [simp]: "vertices (initGraph g) = vertices g"
  by (simp add: initGraph_def vertices_def)

lemma edgesOf_initGraph [simp]: "edgesOf (initGraph g) v = edgesOf g v"
  by (simp add: initGraph_def edgesOf_def)

lemma eval_initGraph [simp]: "eval (initGraph g) = eval g"
  by (simp add: initGraph_def)

lemma initGraph_VertexSet: "VertexSet (initGraph g) \<noteq> None"
  by (simp add: initGraph_def)

lemma vertices_storeEdges [simp]: "vertices (storeEdges g v es) = insert v (vertices g)"
  by (simp add: storeEdges_def vertices_def split: option.splits)

lemma edgesOf_storeEdges [simp]:
  "edgesOf (storeEdges g v es) w = (if w = v then es else edgesOf g w)"
  by (simp add: storeEdges_def edgesOf_def split: option.splits)

lemma eval_storeEdges [simp]: "eval (storeEdges g v es) = eval g"
  by (simp add: storeEdges_def)

lemma storeEdges_VertexSet: "VertexSet (storeEdges g v es) \<noteq> None"
  by (simp add: storeEdges_def)

lemma edgesOf_notin: "v \<notin> vertices g \<Longrightarrow> edgesOf g v = []"
  by (auto simp: edgesOf_def vertices_def split: option.splits)

lemma vertices_AddNode [simp]: "vertices (AddNode g v) = insert v (vertices g)"
  by (auto simp: AddNode_def Let_def)

lemma edgesOf_AddNode [simp]: "edgesOf (AddNode g v) w = edgesOf g w"
  by (auto simp: AddNode_def Let_def dest: edgesOf_notin[of _ "initGraph g", simplified])

lemma eval_AddNode [simp]: "eval (AddNode g v) = eval g"
  by (simp add: AddNode_def Let_def)

lemma AddNode_VertexSet: "VertexSet (AddNode g v) \<noteq> None"
  by (simp add: AddNode_def Let_def initGraph_def storeEdges_def)

lemma vertices_addEdge [simp]:
  "vertices (addEdge g e) = insert (From e) (insert (To e) (vertices g))"
  by (auto simp: addEdge_def Let_def)

lemma edgesOf_addEdge [simp]:
  "edgesOf (addEdge g e) v = (if v = From e then edgesOf g v @ [e] else edgesOf g v)"
  by (simp add: addEdge_def Let_def)

lemma eval_addEdge [simp]: "eval (addEdge g e) = eval g"
  by (simp add: addEdge_def Let_def)

lemma AddEdge_no_tags:
  "AddEdge g from to cost [] =
     (None, addEdge g \<lparr>From = from, To = to, Cost = cost, Tags = Map.empty\<rparr>)"
  by (simp add: AddEdge_def)

lemma fillTags_ok:
  "distinct (map Key tags) \<Longrightarrow> Key ` set tags \<inter> dom m = {} \<Longrightarrow>
   fillTags m tags = Inr (m ++ map_of (map (\<lambda>t. (Key t, Value t)) tags))"
proof (induction tags arbitrary: m)
  case Nil
  then show ?case by simp
next
  case (Cons t ts)
  from Cons.prems have a: "m (Key t) = None" by auto
  from Cons.prems have b: "Key t \<notin> Key ` set ts" by auto
  from Cons.prems have c: "Key ` set ts \<inter> dom (m(Key t \<mapsto> Value t)) = {}" by auto
  from Cons.prems have d: "distinct (map Key ts)" by simp
  have e: "Key t \<notin> dom (map_of (map (\<lambda>t. (Key t, Value t)) ts))"
    using b by (simp add: dom_map_of_conv_image_fst image_image)
  have ih: "fillTags (m(Key t \<mapsto> Value t)) ts =
      Inr (m(Key t \<mapsto> Value t) ++ map_of (map (\<lambda>t. (Key t, Value t)) ts))"
    by (rule Cons.IH[OF d c])
  have m: "m(Key t \<mapsto> Value t) ++ map_of (map (\<lambda>t. (Key t, Value t)) ts) =
        m ++ map_of (map (\<lambda>t. (Key t, Value t)) (t # ts))"
    using e by (simp add: map_add_upd_left)
  have "fillTags m (t # ts) = fillTags (m(Key t \<mapsto> Value t)) ts"
    using a by simp
  also note ih
  finally show ?case unfolding m .
qed

lemma fillTags_dup:
  "\<not> (distinct (map Key tags) \<and> Key ` set tags \<inter> dom m = {}) \<Longrightarrow>
   \<exists>pre t post. tags = pre @ t # post \<and> distinct (map Key pre) \<and> Key ` set pre \<inter> dom m = {}
      \<and> Key t \<in> Key ` set pre \<union> dom m
      \<and> fillTags m tags = Inl (ErrDuplicateTagKey (Key t))"
proof (induction tags arbitrary: m)
  case Nil
  then show ?case by simp
next
  case (Cons t ts)
  show ?case
  proof (cases "m (Key t) = None")
    case False
    then have "Key t \<in> dom m" by auto
    then have "t # ts = [] @ t # ts \<and> distinct (map Key []) \<and> Key ` set [] \<inter> dom m = {}
      \<and> Key t \<in> Key ` set [] \<union> dom m
      \<and> fillTags m (t # ts) = Inl (ErrDuplicateTagKey (Key t))"
      using False by simp
    then show ?thesis by blast
  next
    case True
    let ?m = "m(Key t \<mapsto> Value t)"
    from Cons.prems True have "\<not> (distinct (map Key ts) \<and> Key ` set ts \<inter> dom ?m = {})"
      by auto
    from Cons.IH[OF this] obtain pre u post where
      p: "ts = pre @ u # post" "distinct (map Key pre)" "Key ` set pre \<inter> dom ?m = {}"
         "Key u \<in> Key ` set pre \<union> dom ?m" "fillTags ?m ts = Inl (ErrDuplicateTagKey (Key u))"
      by blast
    have "t # ts = (t # pre) @ u # post \<and> distinct (map Key (t # pre))
       \<and> Key ` set (t # pre) \<inter> dom m = {} \<and> Key u \<in> Key ` set (t # pre) \<union> dom m
       \<and> fillTags m (t # ts) = Inl (ErrDuplicateTagKey (Key u))"
      using p True by auto
    then show ?thesis by blast
  qed
qed

text \<open>
  Claim C5. \<^verbatim>\<open>AddEdge\<close> checks the tags before it touches the graph. When two of the
  supplied tags share a key, the call returns \<open>ErrDuplicateTagKey\<close> wrapped with the key
  of the first tag that repeats an earlier one, and the receiver is returned exactly as
  it was: no edge appended, neither endpoint added. When the keys are pairwise distinct,
  the call returns nil, both endpoints are vertices afterwards, the new edge (with the
  tags as its attribute map) is appended at the end of the outgoing list of \<open>from\<close>, and
  every other outgoing list and the installed predicate are unchanged.
\<close>

theorem AddEdge_validates_tags:
  "(\<not> distinct (map Key tags) \<longrightarrow>
      (\<exists>pre t post. tags = pre @ t # post \<and> distinct (map Key pre) \<and> Key t \<in> Key ` set pre
         \<and> AddEdge g from to cost tags = (Some (ErrDuplicateTagKey (Key t)), g)))
   \<and> (distinct (map Key tags) \<longrightarrow>
      (\<exists>g'. AddEdge g from to cost tags = (None, g')
         \<and> vertices g' = insert from (insert to (vertices g))
         \<and> edgesOf g' from = edgesOf g from @
              [\<lparr>From = from, To = to, Cost = cost,
                Tags = map_of (map (\<lambda>t. (Key t, Value t)) tags)\<rparr>]
         \<and> (\<forall>v. v \<noteq> from \<longrightarrow> edgesOf g' v = edgesOf g v)
         \<and> eval g' = eval g))"
proof (intro conjI impI)
  assume nd: "\<not> distinct (map Key tags)"
  then have ne: "tags \<noteq> []" by auto
  from nd have "\<not> (distinct (map Key tags) \<and> Key ` set tags \<inter> dom (Map.empty :: string \<rightharpoonup> 'a) = {})"
    by simp
  from fillTags_dup[OF this] obtain pre t post where
    p: "tags = pre @ t # post" "distinct (map Key pre)" "Key t \<in> Key ` set pre"
       "fillTags Map.empty tags = Inl (ErrDuplicateTagKey (Key t))"
    by auto
  have "AddEdge g from to cost tags = (Some (ErrDuplicateTagKey (Key t)), g)"
    using ne p(4) by (simp add: AddEdge_def)
  with p show "\<exists>pre t post. tags = pre @ t # post \<and> distinct (map Key pre) \<and> Key t \<in> Key ` set pre
         \<and> AddEdge g from to cost tags = (Some (ErrDuplicateTagKey (Key t)), g)"
    by blast
next
  assume d: "distinct (map Key tags)"
  have f: "fillTags Map.empty tags = Inr (map_of (map (\<lambda>t. (Key t, Value t)) tags))"
    using fillTags_ok[OF d, of Map.empty] by simp
  let ?e = "\<lparr>From = from, To = to, Cost = cost,
                Tags = map_of (map (\<lambda>t. (Key t, Value t)) tags)\<rparr>"
  have "AddEdge g from to cost tags = (None, addEdge g ?e)"
    using f by (cases tags) (simp_all add: AddEdge_def)
  then show "\<exists>g'. AddEdge g from to cost tags = (None, g')
         \<and> vertices g' = insert from (insert to (vertices g))
         \<and> edgesOf g' from = edgesOf g from @ [?e]
         \<and> (\<forall>v. v \<noteq> from \<longrightarrow> edgesOf g' v = edgesOf g v)
         \<and> eval g' = eval g"
    by simp
qed

theorem AddEdge_validates_tags_witness:
  "\<not> distinct (map Key [\<lparr>Key = ''link'', Value = ''blue''\<rparr>, \<lparr>Key = ''link'', Value = ''red''\<rparr>])
   \<and> AddEdge emptyGraph (Vertex ''a'') (Vertex ''b'') 1
         [\<lparr>Key = ''link'', Value = ''blue''\<rparr>, \<lparr>Key = ''link'', Value = ''red''\<rparr>]
       = (Some (ErrDuplicateTagKey ''link''), emptyGraph)
   \<and> distinct (map Key [\<lparr>Key = ''link'', Value = ''blue''\<rparr>])
   \<and> (\<exists>g'. AddEdge emptyGraph (Vertex ''a'') (Vertex ''b'') 1 [\<lparr>Key = ''link'', Value = ''blue''\<rparr>]
          = (None, g')
        \<and> vertices g' = {Vertex ''a'', Vertex ''b''}
        \<and> edgesOf g' (Vertex ''a'') =
            [\<lparr>From = Vertex ''a'', To = Vertex ''b'', Cost = 1, Tags = [''link'' \<mapsto> ''blue'']\<rparr>])"
proof -
  define dup :: "string Tag list" where
    "dup = [\<lparr>Key = ''link'', Value = ''blue''\<rparr>, \<lparr>Key = ''link'', Value = ''red''\<rparr>]"
  define one :: "string Tag list" where "one = [\<lparr>Key = ''link'', Value = ''blue''\<rparr>]"
  define a where "a = Vertex ''a''"
  define b where "b = Vertex ''b''"
  define g :: "string Graph" where "g = emptyGraph"
  have nd: "\<not> distinct (map Key dup)" by (simp add: dup_def)
  have d: "distinct (map Key one)" by (simp add: one_def)
  have keys: "\<And>t. t \<in> set dup \<Longrightarrow> Key t = ''link''" by (auto simp: dup_def)
  have "\<exists>pre t post. dup = pre @ t # post \<and> distinct (map Key pre) \<and> Key t \<in> Key ` set pre
         \<and> AddEdge g a b 1 dup = (Some (ErrDuplicateTagKey (Key t)), g)"
    using AddEdge_validates_tags [of dup g a b 1] nd by blast
  then obtain pre t post where
    p: "dup = pre @ t # post"
       "AddEdge g a b 1 dup = (Some (ErrDuplicateTagKey (Key t)), g)"
    by (elim exE conjE)
  from p(1) have "t \<in> set dup" by simp
  then have "Key t = ''link''" by (rule keys)
  with p(2) have r1: "AddEdge g a b 1 dup = (Some (ErrDuplicateTagKey ''link''), g)" by simp
  have "\<exists>g'. AddEdge g a b 1 one = (None, g')
         \<and> vertices g' = insert a (insert b (vertices g))
         \<and> edgesOf g' a = edgesOf g a @
              [\<lparr>From = a, To = b, Cost = 1,
                Tags = map_of (map (\<lambda>t. (Key t, Value t)) one)\<rparr>]
         \<and> (\<forall>v. v \<noteq> a \<longrightarrow> edgesOf g' v = edgesOf g v)
         \<and> eval g' = eval g"
    using AddEdge_validates_tags [of one g a b 1] d by blast
  then obtain g' where
    q: "AddEdge g a b 1 one = (None, g')"
       "vertices g' = insert a (insert b (vertices g))"
       "edgesOf g' a = edgesOf g a @
          [\<lparr>From = a, To = b, Cost = 1,
            Tags = map_of (map (\<lambda>t. (Key t, Value t)) one)\<rparr>]"
    by (elim exE conjE)
  have v: "vertices g' = {a, b}"
    using q(2) by (simp add: vertices_def emptyGraph_def g_def)
  have e: "edgesOf g' a = [\<lparr>From = a, To = b, Cost = 1, Tags = [''link'' \<mapsto> ''blue'']\<rparr>]"
    using q(3) by (simp add: edgesOf_def emptyGraph_def g_def one_def)
  have r2: "\<exists>g'. AddEdge g a b 1 one = (None, g') \<and> vertices g' = {a, b}
      \<and> edgesOf g' a = [\<lparr>From = a, To = b, Cost = 1, Tags = [''link'' \<mapsto> ''blue'']\<rparr>]"
    using q(1) v e by (intro exI conjI)
  show ?thesis
    using nd r1 d r2 unfolding dup_def one_def a_def b_def g_def by (intro conjI)
qed

section \<open>Concrete inputs\<close>

text \<open>
  The runs below are on small graphs built with \<^verbatim>\<open>AddEdge\<close> and \<^verbatim>\<open>AddNode\<close>. A run
  fixes the order of each \<^verbatim>\<open>range\<close> over a map: \<open>listOrder vs\<close> visits the keys of a
  set in the order in which they stand in \<open>vs\<close>.
\<close>

definition listOrder :: "Vertex list \<Rightarrow> range_order" where
  "listOrder vs S = filter (\<lambda>v. v \<in> S) vs"

text \<open>\<open>vz\<close> is the vertex with the empty identifier, the value of \<^verbatim>\<open>Vertex{}\<close>.\<close>

definition vz :: Vertex where "vz = Vertex ''''"
definition va :: Vertex where "va = Vertex ''a''"
definition vb :: Vertex where "vb = Vertex ''b''"
definition vc :: Vertex where "vc = Vertex ''c''"
definition vd :: Vertex where "vd = Vertex ''d''"

definition eab :: "unit Edge" where
  "eab = \<lparr>From = va, To = vb, Cost = 1, Tags = Map.empty\<rparr>"
definition eab7 :: "unit Edge" where
  "eab7 = \<lparr>From = va, To = vb, Cost = 7, Tags = Map.empty\<rparr>"
definition ebc :: "unit Edge" where
  "ebc = \<lparr>From = vb, To = vc, Cost = 1, Tags = Map.empty\<rparr>"
definition ebd :: "unit Edge" where
  "ebd = \<lparr>From = vb, To = vd, Cost = 1, Tags = Map.empty\<rparr>"
definition edc :: "unit Edge" where
  "edc = \<lparr>From = vd, To = vc, Cost = 1, Tags = Map.empty\<rparr>"
definition ecb :: "unit Edge" where
  "ecb = \<lparr>From = vc, To = vb, Cost = 5, Tags = Map.empty\<rparr>"
definition ezb :: "unit Edge" where
  "ezb = \<lparr>From = vz, To = vb, Cost = 1, Tags = Map.empty\<rparr>"

text \<open>\<open>g1\<close>: a -> b, b -> c, b -> d, d -> c. The vertex b has two outgoing edges.\<close>

definition g1 :: "unit Graph" where
  "g1 = snd (AddEdge (snd (AddEdge (snd (AddEdge (snd (AddEdge emptyGraph
           va vb 1 [])) vb vc 1 [])) vb vd 1 [])) vd vc 1 [])"

text \<open>\<open>g2\<close>: a -> b and the isolated vertex c.\<close>

definition g2 :: "unit Graph" where
  "g2 = AddNode (snd (AddEdge emptyGraph va vb 1 [])) vc"

definition ord2 :: range_order where "ord2 = listOrder [va, vb, vc]"

definition state_g2 :: "unit spf_state" where
  "state_g2 = \<lparr>unvisitedSet = [vc \<mapsto> True],
          distSet = [vc \<mapsto> infinity, va \<mapsto> 0, vb \<mapsto> 1],
          prevSet = [va \<mapsto> [], vc \<mapsto> [], vb \<mapsto> [eab]]\<rparr>"

text \<open>
  \<open>g3\<close>: an edge from the vertex with the empty identifier to b, and the vertex a with
  no edge. \<open>state_g3_first\<close> is the state of \<^verbatim>\<open>SPF(a, b)\<close> after its first round, \<open>state_g3_last\<close> the state
  when the loop ends.
\<close>

definition g3 :: "unit Graph" where
  "g3 = AddNode (snd (AddEdge emptyGraph vz vb 1 [])) va"

definition ord3 :: range_order where "ord3 = listOrder [va, vb, vz]"

definition state_g3_first :: "unit spf_state" where
  "state_g3_first = \<lparr>unvisitedSet = [vb \<mapsto> True, vz \<mapsto> True],
           distSet = [vb \<mapsto> infinity, vz \<mapsto> infinity, va \<mapsto> 0],
           prevSet = [va \<mapsto> [], vb \<mapsto> [], vz \<mapsto> []]\<rparr>"

definition state_g3_last :: "unit spf_state" where
  "state_g3_last = \<lparr>unvisitedSet = Map.empty,
           distSet = [vz \<mapsto> infinity, va \<mapsto> 0, vb \<mapsto> 0],
           prevSet = [va \<mapsto> [], vz \<mapsto> [], vb \<mapsto> [ezb]]\<rparr>"

text \<open>A state in which b is unvisited, at distance 5 through the edge c -> b.\<close>

definition state_relax :: "unit spf_state" where
  "state_relax = \<lparr>unvisitedSet = [vb \<mapsto> True],
          distSet = [va \<mapsto> 0, vc \<mapsto> 0, vb \<mapsto> 5],
          prevSet = [va \<mapsto> [], vc \<mapsto> [], vb \<mapsto> [ecb]]\<rparr>"

text \<open>\<open>gcyc\<close>: the cycle a -> b -> a.\<close>

definition gcyc :: "unit Graph" where
  "gcyc = snd (AddEdge (snd (AddEdge emptyGraph va vb 1 [])) vb va 1 [])"

text \<open>
  A stand-in for the expression library in the runs of \<^verbatim>\<open>CSPF\<close>: the expression \<open>x\<close>
  compiles to the predicate "the tag \<open>link\<close> equals \<open>x\<close>", which fails on an edge
  without that tag; the empty expression does not compile.
\<close>

definition linkIs :: "string \<Rightarrow> string Evaluable" where
  "linkIs x tags =
     (case tags ''link'' of
        None \<Rightarrow> Inl (GvalError ''unknown parameter link'')
      | Some v \<Rightarrow> Inr (v = x))"

definition toyEvaluable :: "string \<Rightarrow> Error + string Evaluable" where
  "toyEvaluable exp = (if exp = [] then Inl (GvalError ''parsing error'') else Inr (linkIs exp))"

definition ered :: "string Edge" where
  "ered = \<lparr>From = va, To = vb, Cost = 1, Tags = [''link'' \<mapsto> ''red'']\<rparr>"

text \<open>
  \<open>gred\<close>: a -> b tagged \<open>link: red\<close>, no predicate installed; \<open>gblue\<close>: the same
  instance with the predicate \<open>linkIs ''blue''\<close> installed.
\<close>

definition gred :: "string Graph" where
  "gred = snd (AddEdge emptyGraph va vb 1 [\<lparr>Key = ''link'', Value = ''red''\<rparr>])"

definition gblue :: "string Graph" where
  "gblue = gred\<lparr>eval := Some (linkIs ''blue'')\<rparr>"

definition ordab :: range_order where "ordab = listOrder [va, vb]"

definition state_ab :: "string spf_state" where
  "state_ab = \<lparr>unvisitedSet = [va \<mapsto> True, vb \<mapsto> True],
           distSet = [vb \<mapsto> infinity, va \<mapsto> 0],
           prevSet = [va \<mapsto> [], vb \<mapsto> []]\<rparr>"

text \<open>
  \<open>gfail\<close>: a -> b tagged \<open>link: blue\<close>, then from b the edges b -> c tagged
  \<open>link: red\<close>, b -> d without a tag and a second b -> c tagged \<open>link: blue\<close>, with the
  predicate \<open>linkIs ''blue''\<close> installed. \<open>state_f0\<close> is the initial state of
  \<^verbatim>\<open>SPF(a, c)\<close> on it, \<open>state_f1\<close> the state after the first round.
\<close>

definition tab :: "string Edge" where
  "tab = \<lparr>From = va, To = vb, Cost = 1, Tags = [''link'' \<mapsto> ''blue'']\<rparr>"
definition tbc :: "string Edge" where
  "tbc = \<lparr>From = vb, To = vc, Cost = 1, Tags = [''link'' \<mapsto> ''red'']\<rparr>"
definition tbd :: "string Edge" where
  "tbd = \<lparr>From = vb, To = vd, Cost = 1, Tags = Map.empty\<rparr>"
definition tbc2 :: "string Edge" where
  "tbc2 = \<lparr>From = vb, To = vc, Cost = 2, Tags = [''link'' \<mapsto> ''blue'']\<rparr>"

definition gtags :: "string Graph" where
  "gtags = snd (AddEdge (snd (AddEdge (snd (AddEdge (snd (AddEdge emptyGraph
      va vb 1 [\<lparr>Key = ''link'', Value = ''blue''\<rparr>]))
      vb vc 1 [\<lparr>Key = ''link'', Value = ''red''\<rparr>]))
      vb vd 1 []))
      vb vc 2 [\<lparr>Key = ''link'', Value = ''blue''\<rparr>])"

definition gfail :: "string Graph" where
  "gfail = gtags\<lparr>eval := Some (linkIs ''blue'')\<rparr>"

definition ordabcd :: range_order where "ordabcd = listOrder [va, vb, vc, vd]"

definition state_f0 :: "string spf_state" where
  "state_f0 = \<lparr>unvisitedSet = [va \<mapsto> True, vb \<mapsto> True, vc \<mapsto> True, vd \<mapsto> True],
        distSet = [vb \<mapsto> infinity, vc \<mapsto> infinity, vd \<mapsto> infinity, va \<mapsto> 0],
        prevSet = [va \<mapsto> [], vb \<mapsto> [], vc \<mapsto> [], vd \<mapsto> []]\<rparr>"

definition state_f1 :: "string spf_state" where
  "state_f1 = \<lparr>unvisitedSet = [vb \<mapsto> True, vc \<mapsto> True, vd \<mapsto> True],
        distSet = [vc \<mapsto> infinity, vd \<mapsto> infinity, va \<mapsto> 0, vb \<mapsto> 1],
        prevSet = [va \<mapsto> [], vc \<mapsto> [], vd \<mapsto> [], vb \<mapsto> [tab]]\<rparr>"

text \<open>
  What claim C1 asks of a returned path: it is empty, or it starts at \<open>from\<close>, ends at
  \<open>to\<close> and each edge ends where the next one starts.
\<close>

fun chained :: "'v Edge list \<Rightarrow> bool" where
  "chained [] = True"
| "chained [e] = True"
| "chained (e # e' # es) = (To e = From e' \<and> chained (e' # es))"

definition connects :: "Vertex \<Rightarrow> Vertex \<Rightarrow> 'v Edge list \<Rightarrow> bool" where
  "connects from to p = (p = [] \<or> (From (hd p) = from \<and> To (last p) = to \<and> chained p))"

subsection \<open>Facts about the concrete inputs\<close>

lemma vertex_ne [simp]:
  "vz \<noteq> va" "vz \<noteq> vb" "vz \<noteq> vc" "vz \<noteq> vd" "va \<noteq> vz"
  "va \<noteq> vb" "va \<noteq> vc" "va \<noteq> vd" "vb \<noteq> vz" "vb \<noteq> va"
  "vb \<noteq> vc" "vb \<noteq> vd" "vc \<noteq> vz" "vc \<noteq> va" "vc \<noteq> vb"
  "vc \<noteq> vd" "vd \<noteq> vz" "vd \<noteq> va" "vd \<noteq> vb" "vd \<noteq> vc"
  by (simp_all add: vz_def va_def vb_def vc_def vd_def)

lemmas spf_eval =
  getSmallestDistanceVertex_def listOrder_def smallerDist_def lookupDist_def lookupPrev_def
  relaxEdge_def lookupUnvisited_def edgeSatisfiesConstranints_def Let_def infinity_def
  vz_def [symmetric]

lemma infinity_wraps: "infinity + 1 = 0" "(18446744073709551616 :: uint64) = 0"
  by (simp_all add: infinity_def)

lemma edge_simps [simp]:
  "From eab = va" "To eab = vb" "Cost eab = 1"
  "From eab7 = va" "To eab7 = vb" "Cost eab7 = 7"
  "From ebc = vb" "To ebc = vc" "From ebd = vb" "To ebd = vd" "From edc = vd" "To edc = vc"
  "From ezb = vz" "To ezb = vb" "Cost ezb = 1"
  by (simp_all add: eab_def eab7_def ebc_def ebd_def edc_def ezb_def)

lemma tagged_edge_simps [simp]:
  "From ered = va" "To ered = vb" "Cost ered = 1" "Tags ered ''link'' = Some ''red''"
  "From tab = va" "To tab = vb" "Cost tab = 1"
  "From tbc = vb" "To tbc = vc" "Cost tbc = 1"
  "From tbd = vb" "To tbd = vd" "Cost tbd = 1"
  "From tbc2 = vb" "To tbc2 = vc" "Cost tbc2 = 2"
  "linkIs ''blue'' (Tags tab) = Inr True"
  "linkIs ''blue'' (Tags tbc) = Inr False"
  "linkIs ''blue'' (Tags tbd) = Inl (GvalError ''unknown parameter link'')"
  by (simp_all add: ered_def tab_def tbc_def tbd_def tbc2_def linkIs_def)

lemma vertices_eval_update [simp]: "vertices (g\<lparr>eval := x\<rparr>) = vertices g"
  by (simp add: vertices_def)

lemma edgesOf_eval_update [simp]: "edgesOf (g\<lparr>eval := x\<rparr>) v = edgesOf g v"
  by (simp add: edgesOf_def)

lemma g1_edges:
  "edgesOf g1 va = [eab]" "edgesOf g1 vb = [ebc, ebd]" "edgesOf g1 vc = []" "edgesOf g1 vd = [edc]"
  by (simp_all add: g1_def AddEdge_no_tags eab_def ebc_def ebd_def edc_def)

lemma g2_vertices: "vertices g2 = {va, vb, vc}"
  by (auto simp: g2_def AddEdge_no_tags)

lemma g2_edges: "edgesOf g2 va = [eab]" "edgesOf g2 vb = []" "edgesOf g2 vc = []"
  by (simp_all add: g2_def AddEdge_no_tags eab_def)

lemma g2_eval [simp]: "eval g2 = None"
  by (simp add: g2_def AddEdge_no_tags)

lemma g3_vertices: "vertices g3 = {va, vb, vz}"
  by (auto simp: g3_def AddEdge_no_tags)

lemma g3_edges: "edgesOf g3 vz = [ezb]" "edgesOf g3 va = []" "edgesOf g3 vb = []"
  by (simp_all add: g3_def AddEdge_no_tags ezb_def)

lemma g3_eval [simp]: "eval g3 = None"
  by (simp add: g3_def AddEdge_no_tags)

lemma gcyc_vertices: "vertices gcyc = {va, vb}"
  by (auto simp: gcyc_def AddEdge_no_tags)

lemma gred_eq: "gred = addEdge emptyGraph ered"
  by (simp add: gred_def AddEdge_def ered_def)

lemma gred_vertices: "vertices gred = {va, vb}"
  by (auto simp: gred_eq)

lemma gred_edges: "edgesOf gred va = [ered]" "edgesOf gred vb = []"
  by (simp_all add: gred_eq)

lemma linkIs_red [simp]: "linkIs ''blue'' (Tags ered) = Inr False"
  by (simp add: linkIs_def)

lemma gtags_eq: "gtags = addEdge (addEdge (addEdge (addEdge emptyGraph tab) tbc) tbd) tbc2"
  by (simp add: gtags_def AddEdge_def tab_def tbc_def tbd_def tbc2_def)

lemma gfail_vertices: "vertices gfail = {va, vb, vc, vd}"
  by (auto simp: gfail_def gtags_eq)

lemma gfail_edges: "edgesOf gfail va = [tab]" "edgesOf gfail vb = [tbc, tbd, tbc2]"
  by (simp_all add: gfail_def gtags_eq)

lemma gfail_eval: "eval gfail = Some (linkIs ''blue'')"
  by (simp add: gfail_def)

section \<open>Properties of the SPF engine\<close>

subsection \<open>The relaxation step\<close>

lemma edgeSatisfiesConstranints_None:
  "eval g = None \<Longrightarrow> edgeSatisfiesConstranints g e = (True, None)"
  by (simp add: edgeSatisfiesConstranints_def)

lemma edgeSatisfiesConstranints_Some:
  "eval g = Some ev \<Longrightarrow>
   edgeSatisfiesConstranints g e =
     (case ev (Tags e) of Inl err \<Rightarrow> (False, Some err) | Inr match \<Rightarrow> (match, None))"
  by (simp add: edgeSatisfiesConstranints_def)

text \<open>
  Claim C4. In one relaxation step, for an edge whose target is still unvisited and
  which satisfies the constraints, let \<open>candidate\<close> be the \<^verbatim>\<open>uint64\<close> sum of the distance
  of the selected vertex and the cost of the edge. If \<open>candidate\<close> is less than or equal to
  the recorded distance of the target, the edge is appended to the target's
  predecessor edges, which are all kept (also when \<open>candidate\<close> is strictly smaller), and
  the target's distance becomes \<open>candidate\<close>; nothing else changes. Otherwise the step
  changes nothing, so the edge is added exactly in the first case.
\<close>

theorem relaxEdge_less_or_equal:
  assumes "lookupUnvisited (unvisitedSet s) (To edge)"
    and "edgeSatisfiesConstranints g edge = (True, None)"
    and "candidate = lookupDist (distSet s) selected + Cost edge"
  shows "(candidate \<le> lookupDist (distSet s) (To edge) \<longrightarrow>
            (\<exists>s'. relaxEdge g selected edge s = Inr s'
               \<and> lookupPrev (prevSet s') (To edge) = lookupPrev (prevSet s) (To edge) @ [edge]
               \<and> lookupDist (distSet s') (To edge) = candidate
               \<and> (\<forall>v. v \<noteq> To edge \<longrightarrow> prevSet s' v = prevSet s v \<and> distSet s' v = distSet s v)
               \<and> unvisitedSet s' = unvisitedSet s))
       \<and> (\<not> candidate \<le> lookupDist (distSet s) (To edge) \<longrightarrow>
            relaxEdge g selected edge s = Inr s)"
  using assms by (simp add: relaxEdge_def Let_def lookupPrev_def lookupDist_def)

theorem relaxEdge_less_or_equal_witness:
  "lookupUnvisited (unvisitedSet state_relax) (To eab)
   \<and> edgeSatisfiesConstranints g2 eab = (True, None)
   \<and> lookupDist (distSet state_relax) va + Cost eab = 1
   \<and> lookupDist (distSet state_relax) (To eab) = 5
   \<and> (\<exists>s'. relaxEdge g2 va eab state_relax = Inr s'
         \<and> lookupPrev (prevSet s') vb = [ecb, eab]
         \<and> lookupDist (distSet s') vb = 1)
   \<and> lookupUnvisited (unvisitedSet state_relax) (To eab7)
   \<and> edgeSatisfiesConstranints g2 eab7 = (True, None)
   \<and> lookupDist (distSet state_relax) va + Cost eab7 = 7
   \<and> relaxEdge g2 va eab7 state_relax = Inr state_relax"
proof -
  have u: "lookupUnvisited (unvisitedSet state_relax) (To eab)" "lookupUnvisited (unvisitedSet state_relax) (To eab7)"
    by (simp_all add: state_relax_def lookupUnvisited_def eab7_def)
  have e: "edgeSatisfiesConstranints g2 eab = (True, None)"
    "edgeSatisfiesConstranints g2 eab7 = (True, None)"
    by (simp_all add: edgeSatisfiesConstranints_def)
  have c: "(1::uint64) = lookupDist (distSet state_relax) va + Cost eab"
    "(7::uint64) = lookupDist (distSet state_relax) va + Cost eab7"
    by (simp_all add: state_relax_def lookupDist_def eab7_def)
  have d: "lookupDist (distSet state_relax) (To eab) = 5" "lookupDist (distSet state_relax) (To eab7) = 5"
    by (simp_all add: state_relax_def lookupDist_def eab7_def)
  have p: "lookupPrev (prevSet state_relax) (To eab) = [ecb]"
    by (simp add: state_relax_def lookupPrev_def)
  from relaxEdge_less_or_equal [OF u(1) e(1) c(1)] d(1) p
  have 1: "\<exists>s'. relaxEdge g2 va eab state_relax = Inr s'
         \<and> lookupPrev (prevSet s') vb = [ecb, eab]
         \<and> lookupDist (distSet s') vb = 1"
    by auto
  from relaxEdge_less_or_equal [OF u(2) e(2) c(2)] d(2)
  have 2: "relaxEdge g2 va eab7 state_relax = Inr state_relax" by simp
  show ?thesis using u e c [symmetric] d(1) 1 2 by simp
qed

subsection \<open>Evaluation errors\<close>

lemma relaxEdges_append:
  "relaxEdges g c (xs @ ys) s =
     (case relaxEdges g c xs s of Inl err \<Rightarrow> Inl err | Inr s' \<Rightarrow> relaxEdges g c ys s')"
  by (induction xs arbitrary: s) (simp_all split: sum.splits)

lemma relaxEdge_fails:
  "eval g = Some ev \<Longrightarrow> lookupUnvisited (unvisitedSet s) (To e) \<Longrightarrow> ev (Tags e) = Inl err \<Longrightarrow>
   relaxEdge g c e s = Inl err"
  by (simp add: relaxEdge_def edgeSatisfiesConstranints_def)

lemma relaxEdges_first_failure:
  "eval g = Some ev \<Longrightarrow> relaxEdges g c pre s = Inr s' \<Longrightarrow>
   lookupUnvisited (unvisitedSet s') (To e) \<Longrightarrow> ev (Tags e) = Inl err \<Longrightarrow>
   relaxEdges g c (pre @ e # post) s = Inl err"
  by (simp add: relaxEdges_append relaxEdge_fails)

lemma spfLoop_round_failure:
  assumes "c = getSmallestDistanceVertex ord (unvisitedSet s) (distSet s)"
    and "c \<in> dom (unvisitedSet s)" and "finite (dom (unvisitedSet s))"
    and "relaxEdges g c (edgesOf g c) (s\<lparr>unvisitedSet := (unvisitedSet s)(c := None)\<rparr>) = Inl err"
  shows "spfLoop ord g s = Inl err"
proof -
  have pos: "0 < card (dom (unvisitedSet s))"
    using assms(2,3) by (auto simp: card_gt_0_iff)
  have "card (dom (unvisitedSet s) - {c}) < card (dom (unvisitedSet s))"
    using assms(2,3) by (rule_tac card_Diff1_less)
  then have ne: "card (dom (unvisitedSet s)) \<noteq> card (dom (unvisitedSet s) - {c})" by simp
  show ?thesis
    using pos ne assms(1,4) by (subst spfLoop.simps) (simp add: Let_def)
qed

lemma spfLoop_round_success:
  assumes "c = getSmallestDistanceVertex ord (unvisitedSet s) (distSet s)"
    and "c \<in> dom (unvisitedSet s)" and "finite (dom (unvisitedSet s))"
    and "relaxEdges g c (edgesOf g c) (s\<lparr>unvisitedSet := (unvisitedSet s)(c := None)\<rparr>) = Inr s2"
  shows "spfLoop ord g s = spfLoop ord g s2"
proof -
  have pos: "0 < card (dom (unvisitedSet s))"
    using assms(2,3) by (auto simp: card_gt_0_iff)
  have "card (dom (unvisitedSet s) - {c}) < card (dom (unvisitedSet s))"
    using assms(2,3) by (rule_tac card_Diff1_less)
  then have ne: "card (dom (unvisitedSet s)) \<noteq> card (dom (unvisitedSet s) - {c})" by simp
  show ?thesis
    using pos ne assms(1,4) by (subst spfLoop.simps) (simp add: Let_def)
qed

lemma SPF_error_nil: "SPF ord gp from to = (r, Some err) \<Longrightarrow> r = None"
  by (auto simp: SPF_def Let_def split: option.splits sum.splits if_splits)

lemma SPF_loop_failure:
  "spfLoop ord g (initState ord g from) = Inl err \<Longrightarrow> SPF ord (Some g) from to = (None, Some err)"
  by (simp add: SPF_def)

lemma init_f: "initState ordabcd gfail va = state_f0"
  by (simp add: initState_def gfail_vertices ordabcd_def listOrder_def initVertex_def state_f0_def)

lemma closest_f0: "getSmallestDistanceVertex ordabcd (unvisitedSet state_f0) (distSet state_f0) = va"
  by (simp add: state_f0_def ordabcd_def spf_eval)

lemma round1_f: "relaxEdges gfail va (edgesOf gfail va)
    (state_f0\<lparr>unvisitedSet := (unvisitedSet state_f0)(va := None)\<rparr>) = Inr state_f1"
  by (simp add: gfail_edges gfail_eval spf_eval state_f0_def state_f1_def)

lemma closest_f1: "getSmallestDistanceVertex ordabcd (unvisitedSet state_f1) (distSet state_f1) = vb"
  by (simp add: state_f1_def ordabcd_def spf_eval)

lemma round2_pre: "relaxEdges gfail vb [tbc]
    (state_f1\<lparr>unvisitedSet := (unvisitedSet state_f1)(vb := None)\<rparr>)
     = Inr (state_f1\<lparr>unvisitedSet := (unvisitedSet state_f1)(vb := None)\<rparr>)"
  by (simp add: gfail_eval spf_eval state_f1_def)

text \<open>
  Claim C8. With a predicate installed, let its evaluation fail on the tags of an edge
  \<open>e\<close>. Then (1) the inner loop over the outgoing edges of the selected vertex stops
  with that error at \<open>e\<close> as soon as the edges before \<open>e\<close> went through without error
  and the target of \<open>e\<close> is still unvisited, whatever follows \<open>e\<close>; (2) a round whose
  inner loop stops with the error makes the relaxation loop stop with it, with no
  further round, and a round that goes through hands its state to the next round, so
  that the same holds at every later round; (3) \<^verbatim>\<open>SPF\<close> then returns the nil graph
  together with that error; and (4) whenever \<^verbatim>\<open>SPF\<close> returns an error its graph is nil:
  no partial subgraph is returned.
\<close>

theorem SPF_aborts_on_evaluation_error:
  assumes "eval g = Some ev" and "ev (Tags e) = Inl err"
  shows "(relaxEdges g c pre s = Inr s' \<and> lookupUnvisited (unvisitedSet s') (To e)
            \<longrightarrow> relaxEdges g c (pre @ e # post) s = Inl err)
     \<and> (c = getSmallestDistanceVertex ord (unvisitedSet s) (distSet s)
          \<and> c \<in> dom (unvisitedSet s) \<and> finite (dom (unvisitedSet s))
          \<and> relaxEdges g c (edgesOf g c) (s\<lparr>unvisitedSet := (unvisitedSet s)(c := None)\<rparr>) = Inl err
            \<longrightarrow> spfLoop ord g s = Inl err)
     \<and> (c = getSmallestDistanceVertex ord (unvisitedSet s) (distSet s)
          \<and> c \<in> dom (unvisitedSet s) \<and> finite (dom (unvisitedSet s))
          \<and> relaxEdges g c (edgesOf g c) (s\<lparr>unvisitedSet := (unvisitedSet s)(c := None)\<rparr>) = Inr s2
            \<longrightarrow> spfLoop ord g s = spfLoop ord g s2)
     \<and> (spfLoop ord g (initState ord g from) = Inl err
            \<longrightarrow> SPF ord (Some g) from to = (None, Some err))
     \<and> (\<forall>r err'. SPF ord gp from to = (r, Some err') \<longrightarrow> r = None)"
proof (intro conjI impI allI)
  assume "relaxEdges g c pre s = Inr s' \<and> lookupUnvisited (unvisitedSet s') (To e)"
  then show "relaxEdges g c (pre @ e # post) s = Inl err"
    using assms by (simp add: relaxEdges_first_failure)
next
  assume "c = getSmallestDistanceVertex ord (unvisitedSet s) (distSet s)
          \<and> c \<in> dom (unvisitedSet s) \<and> finite (dom (unvisitedSet s))
          \<and> relaxEdges g c (edgesOf g c) (s\<lparr>unvisitedSet := (unvisitedSet s)(c := None)\<rparr>) = Inl err"
  then have a: "c = getSmallestDistanceVertex ord (unvisitedSet s) (distSet s)"
    and b: "c \<in> dom (unvisitedSet s)" and f: "finite (dom (unvisitedSet s))"
    and r: "relaxEdges g c (edgesOf g c) (s\<lparr>unvisitedSet := (unvisitedSet s)(c := None)\<rparr>) = Inl err"
    by blast+
  from a b f r show "spfLoop ord g s = Inl err" by (rule spfLoop_round_failure)
next
  assume "c = getSmallestDistanceVertex ord (unvisitedSet s) (distSet s)
          \<and> c \<in> dom (unvisitedSet s) \<and> finite (dom (unvisitedSet s))
          \<and> relaxEdges g c (edgesOf g c) (s\<lparr>unvisitedSet := (unvisitedSet s)(c := None)\<rparr>) = Inr s2"
  then have a: "c = getSmallestDistanceVertex ord (unvisitedSet s) (distSet s)"
    and b: "c \<in> dom (unvisitedSet s)" and f: "finite (dom (unvisitedSet s))"
    and r: "relaxEdges g c (edgesOf g c) (s\<lparr>unvisitedSet := (unvisitedSet s)(c := None)\<rparr>) = Inr s2"
    by blast+
  from a b f r show "spfLoop ord g s = spfLoop ord g s2" by (rule spfLoop_round_success)
next
  assume "spfLoop ord g (initState ord g from) = Inl err"
  then show "SPF ord (Some g) from to = (None, Some err)" by (rule SPF_loop_failure)
next
  fix r err'
  assume "SPF ord gp from to = (r, Some err')"
  then show "r = None" by (rule SPF_error_nil)
qed

theorem SPF_aborts_on_evaluation_error_witness:
  "eval gfail = Some (linkIs ''blue'')
   \<and> linkIs ''blue'' (Tags tbd) = Inl (GvalError ''unknown parameter link'')
   \<and> initState ordabcd gfail va = state_f0
   \<and> va = getSmallestDistanceVertex ordabcd (unvisitedSet state_f0) (distSet state_f0)
   \<and> va \<in> dom (unvisitedSet state_f0) \<and> finite (dom (unvisitedSet state_f0))
   \<and> relaxEdges gfail va (edgesOf gfail va)
        (state_f0\<lparr>unvisitedSet := (unvisitedSet state_f0)(va := None)\<rparr>) = Inr state_f1
   \<and> vb = getSmallestDistanceVertex ordabcd (unvisitedSet state_f1) (distSet state_f1)
   \<and> vb \<in> dom (unvisitedSet state_f1) \<and> finite (dom (unvisitedSet state_f1))
   \<and> edgesOf gfail vb = [tbc] @ tbd # [tbc2]
   \<and> relaxEdges gfail vb [tbc] (state_f1\<lparr>unvisitedSet := (unvisitedSet state_f1)(vb := None)\<rparr>)
        = Inr (state_f1\<lparr>unvisitedSet := (unvisitedSet state_f1)(vb := None)\<rparr>)
   \<and> lookupUnvisited
        (unvisitedSet (state_f1\<lparr>unvisitedSet := (unvisitedSet state_f1)(vb := None)\<rparr>)) (To tbd)
   \<and> spfLoop ordabcd gfail state_f1 = Inl (GvalError ''unknown parameter link'')
   \<and> spfLoop ordabcd gfail (initState ordabcd gfail va)
        = Inl (GvalError ''unknown parameter link'')
   \<and> SPF ordabcd (Some gfail) va vc = (None, Some (GvalError ''unknown parameter link''))"
proof -
  let ?err = "GvalError ''unknown parameter link''"
  let ?d0 = "state_f0\<lparr>unvisitedSet := (unvisitedSet state_f0)(va := None)\<rparr>"
  let ?d1 = "state_f1\<lparr>unvisitedSet := (unvisitedSet state_f1)(vb := None)\<rparr>"
  have ev: "eval gfail = Some (linkIs ''blue'')" by (rule gfail_eval)
  have f: "linkIs ''blue'' (Tags tbd) = Inl ?err" by simp
  have c0: "va = getSmallestDistanceVertex ordabcd (unvisitedSet state_f0) (distSet state_f0)"
    by (simp add: closest_f0)
  have d0: "va \<in> dom (unvisitedSet state_f0)" "finite (dom (unvisitedSet state_f0))"
    by (simp_all add: state_f0_def)
  have c1: "vb = getSmallestDistanceVertex ordabcd (unvisitedSet state_f1) (distSet state_f1)"
    by (simp add: closest_f1)
  have d1: "vb \<in> dom (unvisitedSet state_f1)" "finite (dom (unvisitedSet state_f1))"
    by (simp_all add: state_f1_def)
  have es: "edgesOf gfail vb = [tbc] @ tbd # [tbc2]" by (simp add: gfail_edges)
  have u: "lookupUnvisited (unvisitedSet ?d1) (To tbd)"
    by (simp add: state_f1_def lookupUnvisited_def)
  note T = SPF_aborts_on_evaluation_error [where ev = "linkIs ''blue''" and g = gfail
      and e = tbd and err = ?err and ord = ordabcd and ?from = va and to = vc
      and gp = "Some gfail", OF ev f]
  note inner = T [where c = vb and pre = "[tbc]" and s = ?d1 and s' = ?d1 and post = "[tbc2]",
      THEN conjunct1]
  note fails = T [where c = vb and s = state_f1, THEN conjunct2, THEN conjunct1]
  note goes = T [where c = va and s = state_f0 and ?s2.0 = state_f1,
      THEN conjunct2, THEN conjunct2, THEN conjunct1]
  note top = T [THEN conjunct2, THEN conjunct2, THEN conjunct2, THEN conjunct1]
  from inner round2_pre u have "relaxEdges gfail vb ([tbc] @ tbd # [tbc2]) ?d1 = Inl ?err"
    by blast
  with es have "relaxEdges gfail vb (edgesOf gfail vb) ?d1 = Inl ?err" by simp
  with fails c1 d1 have 2: "spfLoop ordabcd gfail state_f1 = Inl ?err" by blast
  from goes c0 d0 round1_f have "spfLoop ordabcd gfail state_f0 = spfLoop ordabcd gfail state_f1"
    by blast
  with 2 have 3: "spfLoop ordabcd gfail (initState ordabcd gfail va) = Inl ?err"
    by (simp add: init_f)
  with top have 4: "SPF ordabcd (Some gfail) va vc = (None, Some ?err)" by blast
  show ?thesis using ev f init_f c0 d0 round1_f c1 d1 es round2_pre u 2 3 4 by simp
qed

subsection \<open>The result for a destination without predecessor edges\<close>

lemma init2: "initState (listOrder [va, vb, vc]) g2 va =
   \<lparr>unvisitedSet = [va \<mapsto> True, vb \<mapsto> True, vc \<mapsto> True],
    distSet = [vb \<mapsto> infinity, vc \<mapsto> infinity, va \<mapsto> 0],
    prevSet = [va \<mapsto> [], vb \<mapsto> [], vc \<mapsto> []]\<rparr>"
  by (simp add: initState_def g2_vertices listOrder_def initVertex_def)

lemma loop2: "spfLoop (listOrder [va, vb, vc]) g2 (initState (listOrder [va, vb, vc]) g2 va) =
   Inr \<lparr>unvisitedSet = [vc \<mapsto> True],
    distSet = [vc \<mapsto> infinity, va \<mapsto> 0, vb \<mapsto> 1],
    prevSet = [va \<mapsto> [], vc \<mapsto> [], vb \<mapsto> [eab]]\<rparr>"
  apply (simp add: init2)
  apply (subst spfLoop.simps)
  apply (simp add: spf_eval g2_edges)
  apply (subst spfLoop.simps)
  apply (simp add: spf_eval g2_edges)
  apply (subst spfLoop.simps)
  apply (simp add: spf_eval g2_edges)
  done

lemma loop2': "spfLoop ord2 g2 (initState ord2 g2 va) = Inr state_g2"
  unfolding ord2_def state_g2_def by (rule loop2)

lemma build2: "buildResult ord2 (prevSet state_g2) = addEdge emptyGraph eab"
  by (simp add: buildResult_def ord2_def state_g2_def listOrder_def lookupPrev_def)

lemma ord2_vertices: "set (ord2 (vertices g2)) = vertices g2"
  by (auto simp: ord2_def listOrder_def g2_vertices)

text \<open>
  Claim C2 says that \<^verbatim>\<open>SPF(from, to)\<close> with \<open>from \<noteq> to\<close> returns an empty Graph whenever
  the destination has no predecessor edge recorded at the end of the relaxation. That
  fails on \<open>g2\<close> (a -> b, and the isolated vertex c) for \<^verbatim>\<open>SPF(a, c)\<close>: the relaxation
  ends in \<open>state_g2\<close>, where c has no predecessor edge, and the result is the graph with the
  edge a -> b, not the empty Graph. \<^verbatim>\<open>_, ok := prevSet[to]\<close> asks whether \<^verbatim>\<open>to\<close> is a key of
  \<^verbatim>\<open>prevSet\<close>, and every vertex of the graph is one from the initialisation on.
\<close>

theorem SPF_unreachable_counterexample:
  "va \<noteq> vc
   \<and> spfLoop ord2 g2 (initState ord2 g2 va) = Inr state_g2
   \<and> lookupPrev (prevSet state_g2) vc = []
   \<and> SPF ord2 (Some g2) va vc = (Some (addEdge emptyGraph eab), None)
   \<and> edgesOf (addEdge emptyGraph eab) va = [eab]
   \<and> SPF ord2 (Some g2) va vc \<noteq> (Some emptyGraph, None)"
proof -
  have p: "lookupPrev (prevSet state_g2) vc = []" by (simp add: state_g2_def lookupPrev_def)
  have r: "SPF ord2 (Some g2) va vc = (Some (addEdge emptyGraph eab), None)"
    by (simp add: SPF_def loop2' build2) (simp add: state_g2_def)
  have e: "edgesOf (addEdge emptyGraph eab) va = [eab]" by simp
  have "edgesOf (emptyGraph :: unit Graph) va = []" by simp
  with e have "addEdge emptyGraph eab \<noteq> emptyGraph" by (metis list.distinct(1))
  with r have n: "SPF ord2 (Some g2) va vc \<noteq> (Some emptyGraph, None)" by simp
  show ?thesis using p r e n loop2' by simp
qed

lemma relaxEdge_dom_prevSet:
  "relaxEdge g c e s = Inr s' \<Longrightarrow> dom (unvisitedSet s) \<subseteq> dom (prevSet s) \<Longrightarrow>
   dom (prevSet s') = dom (prevSet s)"
  by (auto simp: relaxEdge_def Let_def lookupUnvisited_def
      split: if_splits prod.splits option.splits)

lemma relaxEdges_dom_prevSet:
  "relaxEdges g c es s = Inr s' \<Longrightarrow> dom (unvisitedSet s) \<subseteq> dom (prevSet s) \<Longrightarrow>
   dom (prevSet s') = dom (prevSet s)"
proof (induction es arbitrary: s)
  case Nil
  then show ?case by simp
next
  case (Cons e es)
  from Cons.prems(1) obtain s1 where
    a: "relaxEdge g c e s = Inr s1" and b: "relaxEdges g c es s1 = Inr s'"
    by (auto split: sum.splits)
  from a Cons.prems(2) have d: "dom (prevSet s1) = dom (prevSet s)"
    by (rule relaxEdge_dom_prevSet)
  from a have u: "unvisitedSet s1 = unvisitedSet s" by (rule relaxEdge_unvisitedSet)
  from Cons.IH[OF b] u d Cons.prems(2) show ?case by simp
qed

lemma spfLoop_dom_prevSet:
  "spfLoop ord g s = Inr s' \<Longrightarrow> dom (unvisitedSet s) \<subseteq> dom (prevSet s) \<Longrightarrow>
   dom (prevSet s') = dom (prevSet s)"
proof (induction ord g s rule: spfLoop.induct)
  case (1 ord g s)
  define c where "c = getSmallestDistanceVertex ord (unvisitedSet s) (distSet s)"
  define s1 where "s1 = s\<lparr>unvisitedSet := (unvisitedSet s)(c := None)\<rparr>"
  have sub1: "dom (unvisitedSet s1) \<subseteq> dom (prevSet s1)"
    using "1.prems"(2) by (auto simp: s1_def)
  show ?case
  proof (cases "0 < card (dom (unvisitedSet s))")
    case False
    with "1.prems"(1) show ?thesis by (simp add: spfLoop.simps)
  next
    case pos: True
    show ?thesis
    proof (cases "card (dom (unvisitedSet s)) = card (dom (unvisitedSet s1))")
      case True
      with pos "1.prems"(1) have "s' = s1"
        by (subst (asm) spfLoop.simps) (simp add: Let_def c_def s1_def)
      then show ?thesis by (simp add: s1_def)
    next
      case False
      with pos "1.prems"(1) obtain s2 where
        r: "relaxEdges g c (edgesOf g c) s1 = Inr s2" and l: "spfLoop ord g s2 = Inr s'"
        by (subst (asm) spfLoop.simps) (auto simp: Let_def c_def s1_def split: sum.splits)
      from r sub1 have d2: "dom (prevSet s2) = dom (prevSet s1)" by (rule relaxEdges_dom_prevSet)
      from r have u2: "unvisitedSet s2 = unvisitedSet s1" by (rule relaxEdges_unvisitedSet)
      have "dom (prevSet s') = dom (prevSet s2)"
        using "1.IH"[OF pos refl c_def s1_def False r l] sub1 d2 u2 by simp
      with d2 show ?thesis by (simp add: s1_def)
    qed
  qed
qed

lemma fold_initVertex_dom:
  "dom (prevSet (fold initVertex vs s)) = dom (prevSet s) \<union> set vs"
  "dom (unvisitedSet (fold initVertex vs s)) = dom (unvisitedSet s) \<union> set vs"
  by (induction vs arbitrary: s) (auto simp: initVertex_def)

lemma initState_dom:
  "dom (prevSet (initState ord g from)) = set (ord (vertices g))"
  "dom (unvisitedSet (initState ord g from)) = set (ord (vertices g))"
  by (simp_all add: initState_def Let_def fold_initVertex_dom)

text \<open>
  Claim C2 as amended. Let the range over the vertex set visit exactly the vertices of
  the graph, and let the relaxation end without error in the state \<open>s\<close>. Then the keys
  of \<^verbatim>\<open>prevSet\<close> are the vertices of the graph. If \<^verbatim>\<open>to\<close> is not a vertex of the graph
  (it has no entry in \<^verbatim>\<open>prevSet\<close>) and differs from \<^verbatim>\<open>from\<close>, \<^verbatim>\<open>SPF\<close> returns the empty
  Graph and a nil error. If \<^verbatim>\<open>to\<close> is a vertex of the graph, with or without a recorded
  predecessor edge, or equals \<^verbatim>\<open>from\<close>, the result graph is built from every vertex's
  predecessor-edge set.
\<close>

theorem SPF_result_by_membership:
  assumes "set (ord (vertices g)) = vertices g"
    and "spfLoop ord g (initState ord g from) = Inr s"
  shows "dom (prevSet s) = vertices g
     \<and> (to \<notin> vertices g \<and> to \<noteq> from \<longrightarrow> SPF ord (Some g) from to = (Some emptyGraph, None))
     \<and> (to \<in> vertices g \<or> to = from \<longrightarrow>
          SPF ord (Some g) from to = (Some (buildResult ord (prevSet s)), None))"
proof -
  have "dom (prevSet s) = dom (prevSet (initState ord g from))"
    using assms(2) by (rule spfLoop_dom_prevSet) (simp add: initState_dom)
  then have d: "dom (prevSet s) = vertices g"
    using assms(1) by (simp add: initState_dom)
  then show ?thesis using assms(2) by (auto simp: SPF_def Let_def)
qed

theorem SPF_result_by_membership_witness:
  "set (ord2 (vertices g2)) = vertices g2
   \<and> spfLoop ord2 g2 (initState ord2 g2 va) = Inr state_g2
   \<and> vd \<notin> vertices g2 \<and> vd \<noteq> va
   \<and> SPF ord2 (Some g2) va vd = (Some emptyGraph, None)
   \<and> vc \<in> vertices g2 \<and> lookupPrev (prevSet state_g2) vc = []
   \<and> SPF ord2 (Some g2) va vc = (Some (buildResult ord2 (prevSet state_g2)), None)
   \<and> edgesOf (buildResult ord2 (prevSet state_g2)) va = [eab]"
proof -
  have m: "vd \<notin> vertices g2" "vd \<noteq> va" "vc \<in> vertices g2"
    by (simp_all add: g2_vertices)
  have p: "lookupPrev (prevSet state_g2) vc = []" by (simp add: state_g2_def lookupPrev_def)
  have b: "edgesOf (buildResult ord2 (prevSet state_g2)) va = [eab]"
    by (simp add: build2)
  from SPF_result_by_membership [OF ord2_vertices loop2', of vd] m
  have 1: "SPF ord2 (Some g2) va vd = (Some emptyGraph, None)" by simp
  from SPF_result_by_membership [OF ord2_vertices loop2', of vc] m
  have 2: "SPF ord2 (Some g2) va vc = (Some (buildResult ord2 (prevSet state_g2)), None)" by simp
  show ?thesis using ord2_vertices loop2' m p 1 2 b by simp
qed

subsection \<open>The early exit of the relaxation loop\<close>

text \<open>
  The exit is taken when no unvisited vertex is below \<^verbatim>\<open>infinity\<close> and the zero vertex
  \<^verbatim>\<open>Vertex{}\<close> is not itself an unvisited vertex: the loop then returns the state as it
  is, whatever the order of the range.
\<close>

lemma fold_smallerDist_none:
  "\<forall>v\<in>set vs. lookupDist d v = infinity \<Longrightarrow>
   fold (smallerDist d) vs (infinity, z) = (infinity, z)"
  by (induction vs) (simp_all add: smallerDist_def)

lemma spfLoop_no_progress:
  assumes "\<forall>v\<in>set (ord (dom (unvisitedSet s))). lookupDist (distSet s) v = infinity"
    and "Vertex '''' \<notin> dom (unvisitedSet s)"
  shows "spfLoop ord g s = Inr s"
proof -
  have c: "getSmallestDistanceVertex ord (unvisitedSet s) (distSet s) = Vertex ''''"
    using assms(1) by (simp add: getSmallestDistanceVertex_def fold_smallerDist_none)
  from assms(2) have "unvisitedSet s (Vertex '''') = None" by auto
  then have "(unvisitedSet s)(Vertex '''' := None) = unvisitedSet s" by (rule fun_upd_idem)
  then have "s\<lparr>unvisitedSet := (unvisitedSet s)(Vertex '''' := None)\<rparr> = s" by simp
  moreover from assms(2) have "dom (unvisitedSet s) - {Vertex ''''} = dom (unvisitedSet s)"
    by simp
  ultimately show ?thesis
    by (subst spfLoop.simps) (simp add: c Let_def)
qed

lemma init3: "initState ord3 g3 va =
   \<lparr>unvisitedSet = [va \<mapsto> True, vb \<mapsto> True, vz \<mapsto> True],
    distSet = [vb \<mapsto> infinity, vz \<mapsto> infinity, va \<mapsto> 0],
    prevSet = [va \<mapsto> [], vb \<mapsto> [], vz \<mapsto> []]\<rparr>"
  by (simp add: initState_def g3_vertices ord3_def listOrder_def initVertex_def)

lemma round3a: "spfLoop ord3 g3 (initState ord3 g3 va) = spfLoop ord3 g3 state_g3_first"
  apply (simp add: init3)
  apply (subst spfLoop.simps)
  apply (simp add: spf_eval g3_edges ord3_def state_g3_first_def)
  done

lemma loop3: "spfLoop ord3 g3 state_g3_first = Inr state_g3_last"
  apply (simp add: state_g3_first_def)
  apply (subst spfLoop.simps)
  apply (simp add: spf_eval g3_edges ord3_def infinity_wraps(2))
  apply (subst spfLoop.simps)
  apply (simp add: spf_eval g3_edges ord3_def)
  apply (subst spfLoop.simps)
  apply (simp add: spf_eval g3_edges ord3_def state_g3_last_def)
  done

lemma build3: "buildResult ord3 (prevSet state_g3_last) = addEdge emptyGraph ezb"
  by (simp add: buildResult_def ord3_def state_g3_last_def listOrder_def lookupPrev_def)

text \<open>
  Claim C3: when every remaining unvisited vertex is at infinite distance, the loop
  ends at once and relaxes no further edge, whatever the vertex identifiers. The code
  does not do so on \<open>g3\<close>, whose edge starts at the vertex with the empty identifier.
  After the first round of \<^verbatim>\<open>SPF(a, b)\<close> the unvisited vertices are b and the
  empty-identifier vertex, both at \<^verbatim>\<open>infinity\<close>, and b has no predecessor edge (\<open>state_g3_first\<close>).
  \<^verbatim>\<open>getSmallestDistanceVertex\<close> returns \<^verbatim>\<open>Vertex{}\<close>, which is that vertex: deleting it
  shrinks the set, the loop goes on, and its edge to b is relaxed with the candidate
  \<^verbatim>\<open>infinity + 1\<close>, which wraps to 0. The loop ends in \<open>state_g3_last\<close>, where b has that edge as
  predecessor at distance 0, and \<^verbatim>\<open>SPF(a, b)\<close> returns a graph holding the edge, although
  b cannot be reached from a. No round of this run has two unvisited vertices below
  \<^verbatim>\<open>infinity\<close>, so the order of the ranges plays no part in it.
\<close>

theorem spfLoop_zero_vertex_selected:
  "dom (unvisitedSet state_g3_first) = {vb, vz}
   \<and> lookupDist (distSet state_g3_first) vb = infinity \<and> lookupDist (distSet state_g3_first) vz = infinity
   \<and> lookupPrev (prevSet state_g3_first) vb = []
   \<and> spfLoop ord3 g3 (initState ord3 g3 va) = spfLoop ord3 g3 state_g3_first
   \<and> spfLoop ord3 g3 state_g3_first = Inr state_g3_last
   \<and> lookupPrev (prevSet state_g3_last) vb = [ezb] \<and> lookupDist (distSet state_g3_last) vb = 0
   \<and> SPF ord3 (Some g3) va vb = (Some (addEdge emptyGraph ezb), None)
   \<and> edgesOf (addEdge emptyGraph ezb) vz = [ezb]"
proof -
  have a: "dom (unvisitedSet state_g3_first) = {vb, vz}" by (auto simp: state_g3_first_def)
  have b: "lookupDist (distSet state_g3_first) vb = infinity" "lookupDist (distSet state_g3_first) vz = infinity"
    "lookupPrev (prevSet state_g3_first) vb = []"
    by (simp_all add: state_g3_first_def lookupDist_def lookupPrev_def)
  have c: "lookupPrev (prevSet state_g3_last) vb = [ezb]" "lookupDist (distSet state_g3_last) vb = 0"
    by (simp_all add: state_g3_last_def lookupDist_def lookupPrev_def)
  have d: "SPF ord3 (Some g3) va vb = (Some (addEdge emptyGraph ezb), None)"
    by (simp add: SPF_def round3a loop3 build3) (simp add: state_g3_last_def)
  show ?thesis using a b c d round3a loop3 by simp
qed

section \<open>Properties of CSPF\<close>

lemma init_gred: "initState ordab gred va = state_ab" "initState ordab gblue va = state_ab"
  by (simp_all add: initState_def gblue_def gred_vertices ordab_def listOrder_def initVertex_def
      state_ab_def)

lemma SPF_gred: "SPF ordab (Some gred) va vb = (Some (addEdge emptyGraph ered), None)"
  apply (simp add: SPF_def init_gred)
  apply (simp add: state_ab_def)
  apply (subst spfLoop.simps)
  apply (simp add: spf_eval ordab_def gred_edges gred_eq)
  apply (subst spfLoop.simps)
  apply (simp add: spf_eval ordab_def gred_edges gred_eq)
  apply (subst spfLoop.simps)
  apply (simp add: spf_eval ordab_def gred_edges gred_eq buildResult_def)
  done

lemma SPF_gblue: "SPF ordab (Some gblue) va vb = (Some emptyGraph, None)"
  apply (simp add: SPF_def init_gred)
  apply (simp add: state_ab_def)
  apply (subst spfLoop.simps)
  apply (simp add: spf_eval ordab_def gred_edges gblue_def)
  apply (subst spfLoop.simps)
  apply (simp add: spf_eval ordab_def gred_edges gblue_def buildResult_def)
  done

text \<open>
  Claim C7. When the expression compiles, \<^verbatim>\<open>CSPF\<close> stores the compiled predicate in the
  receiver and returns what \<^verbatim>\<open>SPF\<close> returns on that receiver. The predicate stays:
  \<^verbatim>\<open>AddNode\<close> and \<^verbatim>\<open>AddEdge\<close> keep it, and a later plain \<^verbatim>\<open>SPF\<close> on the same instance
  returns, for every source and destination, what \<^verbatim>\<open>CSPF\<close> with that expression returns
  on the original instance, since each edge is tested with the predicate. An edge
  satisfies the constraints without evaluation only on an instance whose predicate is
  nil.
\<close>

theorem CSPF_predicate_persists:
  assumes "NewEvaluable exp = Inr ev"
  shows "\<exists>g'. CSPF NewEvaluable ord (Some g) from to exp = (SPF ord (Some g') from to, Some g')
           \<and> g' = g\<lparr>eval := Some ev\<rparr>
           \<and> (\<forall>from' to'. SPF ord (Some g') from' to'
                 = fst (CSPF NewEvaluable ord (Some g) from' to' exp))
           \<and> (\<forall>e. edgeSatisfiesConstranints g' e =
                 (case ev (Tags e) of Inl err \<Rightarrow> (False, Some err) | Inr match \<Rightarrow> (match, None)))
           \<and> (\<forall>v. eval (AddNode g' v) = Some ev)
           \<and> (\<forall>f t c tags. eval (snd (AddEdge g' f t c tags)) = Some ev)
           \<and> (\<forall>h e. eval h = None \<longrightarrow> edgeSatisfiesConstranints h e = (True, None))"
proof -
  have "eval (snd (AddEdge h f t c tags)) = eval h" for h :: "'a Graph" and f t c tags
    by (simp add: AddEdge_def Let_def split: sum.splits)
  then show ?thesis
    using assms by (simp add: CSPF_def edgeSatisfiesConstranints_def Let_def)
qed

theorem CSPF_predicate_persists_witness:
  "toyEvaluable ''blue'' = Inr (linkIs ''blue'')
   \<and> eval gred = None
   \<and> SPF ordab (Some gred) va vb = (Some (addEdge emptyGraph ered), None)
   \<and> CSPF toyEvaluable ordab (Some gred) va vb ''blue'' = ((Some emptyGraph, None), Some gblue)
   \<and> eval gblue = Some (linkIs ''blue'')
   \<and> SPF ordab (Some gblue) va vb = (Some emptyGraph, None)
   \<and> edgeSatisfiesConstranints gblue ered = (False, None)
   \<and> edgeSatisfiesConstranints gred ered = (True, None)"
proof -
  have c: "toyEvaluable ''blue'' = Inr (linkIs ''blue'')" by (simp add: toyEvaluable_def)
  have n: "eval gred = None" by (simp add: gred_eq)
  from CSPF_predicate_persists [where NewEvaluable = toyEvaluable and exp = "''blue''"
      and ev = "linkIs ''blue''" and ord = ordab and g = gred and ?from = va and to = vb, OF c]
  have 1: "CSPF toyEvaluable ordab (Some gred) va vb ''blue''
             = (SPF ordab (Some gblue) va vb, Some gblue)"
    and 2: "edgeSatisfiesConstranints gblue ered =
             (case linkIs ''blue'' (Tags ered) of Inl err \<Rightarrow> (False, Some err)
              | Inr match \<Rightarrow> (match, None))"
    and 3: "eval gred = None \<longrightarrow> edgeSatisfiesConstranints gred ered = (True, None)"
    unfolding gblue_def by blast+
  have e: "eval gblue = Some (linkIs ''blue'')" by (simp add: gblue_def)
  show ?thesis using c n 1 2 3 e SPF_gred SPF_gblue by simp
qed

text \<open>
  Claim C10. When the expression does not compile, \<^verbatim>\<open>CSPF\<close> returns the nil graph and
  the parse error, and the receiver is exactly as before the call: a predicate
  installed by an earlier call is still the one in effect.
\<close>

theorem CSPF_parse_error_keeps_predicate:
  assumes "NewEvaluable exp = Inl err"
  shows "CSPF NewEvaluable ord (Some g) from to exp = ((None, Some err), Some g)"
  using assms by (simp add: CSPF_def)

theorem CSPF_parse_error_keeps_predicate_witness:
  "toyEvaluable '''' = Inl (GvalError ''parsing error'')
   \<and> eval gblue = Some (linkIs ''blue'')
   \<and> CSPF toyEvaluable ordab (Some gblue) va vb ''''
        = ((None, Some (GvalError ''parsing error'')), Some gblue)"
proof -
  have c: "toyEvaluable '''' = Inl (GvalError ''parsing error'')" by (simp add: toyEvaluable_def)
  have e: "eval gblue = Some (linkIs ''blue'')" by (simp add: gblue_def)
  from CSPF_parse_error_keeps_predicate [where NewEvaluable = toyEvaluable and exp = "''''"
      and ord = ordab and g = gblue and ?from = va and to = vb, OF c] c e
  show ?thesis by simp
qed

section \<open>Nil receivers\<close>

text \<open>
  Claim C6. On a nil receiver \<^verbatim>\<open>SPF\<close> and \<^verbatim>\<open>CSPF\<close> return the nil graph together with
  \<^verbatim>\<open>ErrNilGraph\<close> (and \<^verbatim>\<open>CSPF\<close> does not reach the parser), and \<^verbatim>\<open>Paths\<close> returns the
  empty sequence, before any call of \<^verbatim>\<open>dfs\<close>. Each of the three returns a value: none
  dereferences the receiver.
\<close>

theorem nil_receiver:
  "SPF ord None from to = (None, Some ErrNilGraph)
   \<and> CSPF NewEvaluable ord None from to exp = ((None, Some ErrNilGraph), None)
   \<and> Paths n None from to = Some []"
  by (simp add: SPF_def CSPF_def Paths_def)

section \<open>Lists for slices\<close>

text \<open>
  The run of \<^verbatim>\<open>dfs\<close> on backing arrays reads out as the run on lists, for every
  growth policy that makes the new array large enough: \<^verbatim>\<open>path = path[1:]\<close> never moves
  the end of the window back, so \<^verbatim>\<open>append\<close> writes behind every recorded window on
  the same array and no recorded path changes after it was recorded.
\<close>

lemma take_drop_update_beyond:
  "k + n \<le> i \<Longrightarrow> take n (drop k (xs[i := e])) = take n (drop k xs)"
  by (simp add: drop_update_swap take_update_cancel)

lemma take_drop_update_end:
  "k + n < length xs \<Longrightarrow> take (Suc n) (drop k (xs[k + n := e])) = take n (drop k xs) @ [e]"
  by (simp add: drop_update_swap take_Suc_conv_app_nth take_update_cancel)

lemma take_drop_tl: "take (n - 1) (drop (Suc k) xs) = tl (take n (drop k xs))"
  by (simp add: tl_take drop_Suc tl_drop)

lemma readSlice_other:
  "s_arr r \<noteq> a \<Longrightarrow> readSlice (h(a := xs)) r = readSlice h r"
  by (simp add: readSlice_def)

lemma readSlice_update_beyond:
  "s_off r + s_len r \<le> i \<Longrightarrow> readSlice (h(a := (h a)[i := e])) r = readSlice h r"
  by (cases "s_arr r = a") (simp_all add: readSlice_def take_drop_update_beyond)

lemma appendA_ok:
  assumes "slices_ok st" and "\<forall>n. n \<le> grow n"
  shows "slices_ok (appendA grow e st)"
proof (cases "s_len (pathA st) < s_cap (pathA st)")
  case True
  with assms(1) show ?thesis
    by (auto simp: slices_ok_def appendA_def Let_def)
next
  case False
  from assms(2) have "s_len (pathA st) + 1 \<le> grow (s_len (pathA st) + 1)" by blast
  with False assms(1) show ?thesis
    by (auto simp: slices_ok_def appendA_def Let_def readSlice_def)
qed

lemma appendA_path:
  assumes "slices_ok st"
  shows "readSlice (heap (appendA grow e st)) (pathA (appendA grow e st))
         = readSlice (heap st) (pathA st) @ [e]"
proof (cases "s_len (pathA st) < s_cap (pathA st)")
  case True
  with assms have "s_off (pathA st) + s_len (pathA st) < length (heap st (s_arr (pathA st)))"
    by (simp add: slices_ok_def Let_def)
  with True show ?thesis
    by (simp add: appendA_def Let_def readSlice_def take_drop_update_end)
next
  case False
  from assms have "s_off (pathA st) + s_len (pathA st) \<le> length (heap st (s_arr (pathA st)))"
    by (simp add: slices_ok_def Let_def)
  then have "length (readSlice (heap st) (pathA st)) = s_len (pathA st)"
    by (simp add: readSlice_def)
  then have "take (s_len (pathA st) + 1) (readSlice (heap st) (pathA st) @ [e] @ zs)
               = readSlice (heap st) (pathA st) @ [e]" for zs
    by simp
  with False show ?thesis
    by (simp add: appendA_def Let_def) (simp add: readSlice_def)
qed

lemma appendA_paths:
  assumes "slices_ok st"
  shows "map (readSlice (heap (appendA grow e st))) (pathsA (appendA grow e st))
         = map (readSlice (heap st)) (pathsA st)"
proof (cases "s_len (pathA st) < s_cap (pathA st)")
  case True
  have "readSlice (heap (appendA grow e st)) r = readSlice (heap st) r"
    if "r \<in> set (pathsA st)" for r
  proof (cases "s_arr r = s_arr (pathA st)")
    case same: True
    with assms that have "s_off r + s_len r \<le> s_off (pathA st) + s_len (pathA st)"
      by (auto simp: slices_ok_def Let_def)
    with True show ?thesis
      by (simp add: appendA_def Let_def readSlice_update_beyond)
  next
    case other: False
    with True show ?thesis
      by (simp add: appendA_def Let_def readSlice_other)
  qed
  moreover from True have "pathsA (appendA grow e st) = pathsA st"
    by (simp add: appendA_def Let_def)
  ultimately show ?thesis by simp
next
  case False
  have "readSlice (heap (appendA grow e st)) r = readSlice (heap st) r"
    if "r \<in> set (pathsA st)" for r
  proof -
    from assms that have "s_arr r \<noteq> nextArr st" by (auto simp: slices_ok_def Let_def)
    with False show ?thesis by (simp add: appendA_def Let_def readSlice_other)
  qed
  moreover from False have "pathsA (appendA grow e st) = pathsA st"
    by (simp add: appendA_def Let_def)
  ultimately show ?thesis by simp
qed

lemma appendA_visited: "visitedA (appendA grow e st) = visitedA st"
  by (simp add: appendA_def Let_def)

lemma appendA_abstr:
  assumes "slices_ok st"
  shows "abstr (appendA grow e st) = (abstr st)\<lparr>path := path (abstr st) @ [e]\<rparr>"
  using assms by (simp add: abstr_def appendA_path appendA_paths appendA_visited)

lemma slices_ok_path_length: "slices_ok st \<Longrightarrow> length (path (abstr st)) = s_len (pathA st)"
  by (auto simp: slices_ok_def Let_def abstr_def readSlice_def)

lemma enter_refines:
  fixes st :: "'v arr_state" and v :: Vertex and edge :: "'v Edge option" and grow :: "nat \<Rightarrow> nat"
  assumes "slices_ok st" and "\<forall>n. n \<le> grow n"
  shows "slices_ok (case edge of None \<Rightarrow> st\<lparr>visitedA := (visitedA st)(v \<mapsto> True)\<rparr>
              | Some e \<Rightarrow> appendA grow e (st\<lparr>visitedA := (visitedA st)(v \<mapsto> True)\<rparr>))"
    and "abstr (case edge of None \<Rightarrow> st\<lparr>visitedA := (visitedA st)(v \<mapsto> True)\<rparr>
              | Some e \<Rightarrow> appendA grow e (st\<lparr>visitedA := (visitedA st)(v \<mapsto> True)\<rparr>))
         = (case edge of None \<Rightarrow> (abstr st)\<lparr>visited := (visited (abstr st))(v \<mapsto> True)\<rparr>
            | Some e \<Rightarrow> ((abstr st)\<lparr>visited := (visited (abstr st))(v \<mapsto> True)\<rparr>)
                 \<lparr>path := path ((abstr st)\<lparr>visited := (visited (abstr st))(v \<mapsto> True)\<rparr>) @ [e]\<rparr>)"
proof -
  let ?st1 = "st\<lparr>visitedA := (visitedA st)(v \<mapsto> True)\<rparr>"
  have i1: "slices_ok ?st1" using assms(1) by (simp add: slices_ok_def Let_def)
  have a1: "abstr ?st1 = (abstr st)\<lparr>visited := (visited (abstr st))(v \<mapsto> True)\<rparr>"
    by (simp add: abstr_def)
  show "slices_ok (case edge of None \<Rightarrow> ?st1 | Some e \<Rightarrow> appendA grow e ?st1)"
    using i1 assms(2) by (cases edge) (simp_all add: appendA_ok)
  show "abstr (case edge of None \<Rightarrow> ?st1 | Some e \<Rightarrow> appendA grow e ?st1)
         = (case edge of None \<Rightarrow> (abstr st)\<lparr>visited := (visited (abstr st))(v \<mapsto> True)\<rparr>
            | Some e \<Rightarrow> ((abstr st)\<lparr>visited := (visited (abstr st))(v \<mapsto> True)\<rparr>)
                 \<lparr>path := path ((abstr st)\<lparr>visited := (visited (abstr st))(v \<mapsto> True)\<rparr>) @ [e]\<rparr>)"
  proof (cases edge)
    case None
    then show ?thesis by (simp add: a1)
  next
    case (Some e)
    have "abstr (appendA grow e ?st1) = (abstr ?st1)\<lparr>path := path (abstr ?st1) @ [e]\<rparr>"
      using i1 by (rule appendA_abstr)
    with Some show ?thesis by (simp add: a1)
  qed
qed

lemma record_refines:
  assumes "slices_ok st"
  shows "slices_ok (st\<lparr>pathsA := pathsA st @ [pathA st]\<rparr>)"
    and "abstr (st\<lparr>pathsA := pathsA st @ [pathA st]\<rparr>)
           = (abstr st)\<lparr>paths := paths (abstr st) @ [path (abstr st)]\<rparr>"
  using assms by (auto simp: slices_ok_def Let_def abstr_def)

lemma leave_refines:
  fixes st :: "'v arr_state" and v :: Vertex
  assumes "slices_ok st"
  defines "st4 \<equiv> (if s_len (pathA st) > 0 then st\<lparr>pathA := sliceFrom1 (pathA st)\<rparr> else st)"
  defines "s4 \<equiv> (if length (path (abstr st)) > 0
                   then (abstr st)\<lparr>path := tl (path (abstr st))\<rparr> else abstr st)"
  shows "slices_ok (st4\<lparr>visitedA := (visitedA st4)(v \<mapsto> False)\<rparr>)"
    and "abstr (st4\<lparr>visitedA := (visitedA st4)(v \<mapsto> False)\<rparr>)
           = s4\<lparr>visited := (visited s4)(v \<mapsto> False)\<rparr>"
proof -
  have l: "length (path (abstr st)) = s_len (pathA st)" using assms(1) by (rule slices_ok_path_length)
  have i4: "slices_ok st4"
    using assms(1) by (auto simp: st4_def slices_ok_def Let_def sliceFrom1_def)
  then show "slices_ok (st4\<lparr>visitedA := (visitedA st4)(v \<mapsto> False)\<rparr>)"
    by (simp add: slices_ok_def Let_def)
  have "readSlice (heap st) (sliceFrom1 (pathA st)) = tl (readSlice (heap st) (pathA st))"
    using take_drop_tl [of "s_len (pathA st)" "s_off (pathA st)" "heap st (s_arr (pathA st))"]
    by (simp add: readSlice_def sliceFrom1_def)
  then have a4: "abstr st4 = s4"
    using l by (simp add: st4_def s4_def abstr_def)
  have "abstr (st4\<lparr>visitedA := (visitedA st4)(v \<mapsto> False)\<rparr>)
           = (abstr st4)\<lparr>visited := (visited (abstr st4))(v \<mapsto> False)\<rparr>"
    by (simp add: abstr_def)
  then show "abstr (st4\<lparr>visitedA := (visitedA st4)(v \<mapsto> False)\<rparr>)
           = s4\<lparr>visited := (visited s4)(v \<mapsto> False)\<rparr>"
    by (simp only: a4)
qed

lemma dfsA_refines:
  "(\<forall>k. k \<le> grow k) \<Longrightarrow> slices_ok st \<Longrightarrow>
     refines (dfsA grow n g to v edge st) (dfs n g to v edge (abstr st))"
  "(\<forall>k. k \<le> grow k) \<Longrightarrow> slices_ok st \<Longrightarrow>
     refines (dfsEdgesA grow n g to es st) (dfsEdges n g to es (abstr st))"
proof (induction grow n g to v edge st and grow n g to es st rule: dfsA_dfsEdgesA.induct)
  case (1 grow g to v edge st)
  then show ?case by (simp add: refines_def)
next
  case (2 grow n g to v edge st)
  define st1 where "st1 = st\<lparr>visitedA := (visitedA st)(v \<mapsto> True)\<rparr>"
  define st2 where "st2 = (case edge of None \<Rightarrow> st1 | Some e \<Rightarrow> appendA grow e st1)"
  define s1 where "s1 = (abstr st)\<lparr>visited := (visited (abstr st))(v \<mapsto> True)\<rparr>"
  define s2 where "s2 = (case edge of None \<Rightarrow> s1 | Some e \<Rightarrow> s1\<lparr>path := path s1 @ [e]\<rparr>)"
  have i2: "slices_ok st2"
    unfolding st2_def st1_def by (rule enter_refines(1) [OF "2.prems"(2) "2.prems"(1)])
  have a2: "abstr st2 = s2"
    unfolding st2_def st1_def s2_def s1_def
    by (rule enter_refines(2) [OF "2.prems"(2) "2.prems"(1)])
  show ?case
  proof (cases "v = to")
    case True
    define st3 where "st3 = st2\<lparr>pathsA := pathsA st2 @ [pathA st2]\<rparr>"
    have i3: "slices_ok st3" and a3: "abstr st3 = s2\<lparr>paths := paths s2 @ [path s2]\<rparr>"
      using record_refines [OF i2] a2 by (simp_all add: st3_def)
    have A: "dfsA grow (Suc n) g to v edge st =
        Some (let st4 = (if s_len (pathA st3) > 0 then st3\<lparr>pathA := sliceFrom1 (pathA st3)\<rparr>
                         else st3)
              in st4\<lparr>visitedA := (visitedA st4)(v \<mapsto> False)\<rparr>)"
      using True unfolding st3_def st2_def st1_def by (cases edge) (simp_all add: Let_def)
    have B: "dfs (Suc n) g to v edge (abstr st) =
        Some (let s4 = (if length (path (abstr st3)) > 0
                        then (abstr st3)\<lparr>path := tl (path (abstr st3))\<rparr> else abstr st3)
              in s4\<lparr>visited := (visited s4)(v \<mapsto> False)\<rparr>)"
      using True unfolding a3 s2_def s1_def by (cases edge) (simp_all add: Let_def)
    show ?thesis
      using leave_refines [OF i3, of v] unfolding A B by (simp add: refines_def Let_def)
  next
    case False
    have ih: "refines (dfsEdgesA grow n g to (edgesOf g v) st2)
                      (dfsEdges n g to (edgesOf g v) (abstr st2))"
      using "2.IH" [OF st1_def st2_def False "2.prems"(1) i2] .
    show ?thesis
    proof (cases "dfsEdgesA grow n g to (edgesOf g v) st2")
      case None
      with ih have "dfsEdges n g to (edgesOf g v) s2 = None"
        by (simp add: refines_def a2)
      with None False show ?thesis
        unfolding st2_def st1_def s2_def s1_def by (cases edge) (simp_all add: refines_def Let_def)
    next
      case (Some st3)
      with ih have i3: "slices_ok st3" and d3: "dfsEdges n g to (edgesOf g v) s2 = Some (abstr st3)"
        by (simp_all add: refines_def a2)
      have A: "dfsA grow (Suc n) g to v edge st =
        Some (let st4 = (if s_len (pathA st3) > 0 then st3\<lparr>pathA := sliceFrom1 (pathA st3)\<rparr>
                         else st3)
              in st4\<lparr>visitedA := (visitedA st4)(v \<mapsto> False)\<rparr>)"
        using False Some unfolding st2_def st1_def by (cases edge) (simp_all add: Let_def)
      have B: "dfs (Suc n) g to v edge (abstr st) =
        Some (let s4 = (if length (path (abstr st3)) > 0
                        then (abstr st3)\<lparr>path := tl (path (abstr st3))\<rparr> else abstr st3)
              in s4\<lparr>visited := (visited s4)(v \<mapsto> False)\<rparr>)"
        using False d3 unfolding s2_def s1_def by (cases edge) (simp_all add: Let_def)
      show ?thesis
        using leave_refines [OF i3, of v] unfolding A B by (simp add: refines_def Let_def)
    qed
  qed
next
  case (3 grow n g to st)
  then show ?case by (simp add: refines_def)
next
  case (4 grow n g to edge edges st)
  have vis: "visited (abstr st) = visitedA st" by (simp add: abstr_def)
  show ?case
  proof (cases "lookupVisited (visitedA st) (To edge)")
    case True
    with "4.IH"(3) [OF _ "4.prems"] show ?thesis by (simp add: vis)
  next
    case False
    from "4.IH"(1) [OF False "4.prems"]
    have ih1: "refines (dfsA grow n g to (To edge) (Some edge) st)
                       (dfs n g to (To edge) (Some edge) (abstr st))" .
    show ?thesis
    proof (cases "dfsA grow n g to (To edge) (Some edge) st")
      case None
      with ih1 False show ?thesis by (simp add: refines_def vis)
    next
      case (Some st')
      with ih1 have i: "slices_ok st'" and d: "dfs n g to (To edge) (Some edge) (abstr st) = Some (abstr st')"
        by (simp_all add: refines_def)
      from "4.IH"(2) [OF False Some "4.prems"(1) i] False Some d
      show ?thesis by (simp add: vis)
    qed
  qed
qed

lemma initArr_ok: "slices_ok initArr"
  by (simp add: slices_ok_def initArr_def)

lemma abstr_initArr: "abstr initArr = \<lparr>visited = Map.empty, path = [], paths = []\<rparr>"
  by (simp add: abstr_def initArr_def readSlice_def)

lemma PathsA_Paths:
  assumes "\<forall>k. k \<le> grow k"
  shows "PathsA grow n gp from to = Paths n gp from to"
proof (cases gp)
  case None
  then show ?thesis by (simp add: PathsA_def Paths_def)
next
  case (Some g)
  have r: "refines (dfsA grow n g to from None initArr)
                 (dfs n g to from None \<lparr>visited = Map.empty, path = [], paths = []\<rparr>)"
    using dfsA_refines(1) [OF assms initArr_ok] by (simp only: abstr_initArr)
  show ?thesis
  proof (cases "dfsA grow n g to from None initArr")
    case None
    with r Some show ?thesis by (simp add: PathsA_def Paths_def refines_def)
  next
    case (Some st)
    with r have "dfs n g to from None \<lparr>visited = Map.empty, path = [], paths = []\<rparr>
                   = Some (abstr st)"
      by (simp add: refines_def)
    with Some \<open>gp = Some g\<close> show ?thesis
      by (simp add: PathsA_def Paths_def abstr_def)
  qed
qed

section \<open>Properties of the path enumerator\<close>

text \<open>
  \<open>visitedSet\<close> is the set of vertices marked \<^verbatim>\<open>true\<close> in \<^verbatim>\<open>visited\<close>; \<open>targets\<close> is the
  set of vertices that some edge of the graph leads to.
\<close>

definition visitedSet :: "'v dfs_state \<Rightarrow> Vertex set" where
  "visitedSet s = {v. lookupVisited (visited s) v}"

definition targets :: "'v Graph \<Rightarrow> Vertex set" where
  "targets g = (\<Union>v\<in>vertices g. To ` set (edgesOf g v))"

text \<open>
  A call of \<^verbatim>\<open>dfs\<close> that returns leaves the marks as they were, except that its own
  vertex is unmarked; the loop over the edges leaves them as they were, since it
  enters unmarked vertices only.
\<close>

lemma dfs_visitedSet:
  "dfs n g to v edge s = Some s' \<Longrightarrow> visitedSet s' = visitedSet s - {v}"
  "dfsEdges n g to es s = Some s'' \<Longrightarrow> visitedSet s'' = visitedSet s"
proof (induction n g to v edge s and n g to es s arbitrary: s' and s'' rule: dfs_dfsEdges.induct)
  case (1 g to v edge s)
  then show ?case by simp
next
  case (2 n g to v edge s)
  show ?case
  proof (cases "v = to")
    case True
    with "2.prems" show ?thesis
      by (auto simp: Let_def visitedSet_def lookupVisited_def split: option.splits if_splits)
  next
    case False
    define s1 where "s1 = s\<lparr>visited := (visited s)(v \<mapsto> True)\<rparr>"
    define state_g2 where "state_g2 = (case edge of None \<Rightarrow> s1 | Some e \<Rightarrow> s1\<lparr>path := path s1 @ [e]\<rparr>)"
    from "2.prems" False obtain s3 where
      r: "dfsEdges n g to (edgesOf g v) state_g2 = Some s3"
      unfolding s1_def state_g2_def by (auto simp: Let_def split: option.splits)
    have "visitedSet s3 = visitedSet state_g2"
      using "2.IH"[OF s1_def state_g2_def False r] .
    also have "visitedSet state_g2 = insert v (visitedSet s)"
      by (auto simp: state_g2_def s1_def visitedSet_def lookupVisited_def split: option.splits)
    finally have v3: "visitedSet s3 = insert v (visitedSet s)" .
    from "2.prems" False r have
      "s' = (let state_relax = (if length (path s3) > 0 then s3\<lparr>path := tl (path s3)\<rparr> else s3)
              in state_relax\<lparr>visited := (visited state_relax)(v \<mapsto> False)\<rparr>)"
      unfolding s1_def state_g2_def by (simp add: Let_def)
    then have "visitedSet s' = visitedSet s3 - {v}"
      by (auto simp: visitedSet_def lookupVisited_def Let_def split: option.splits if_splits)
    with v3 show ?thesis by auto
  qed
next
  case (3 n g to s)
  then show ?case by simp
next
  case (4 n g to edge edges s)
  show ?case
  proof (cases "lookupVisited (visited s) (To edge)")
    case True
    with "4.prems" have "dfsEdges n g to edges s = Some s''" by simp
    with "4.IH"(3) True show ?thesis by simp
  next
    case False
    with "4.prems" obtain s1 where
      d: "dfs n g to (To edge) (Some edge) s = Some s1" and
      e: "dfsEdges n g to edges s1 = Some s''"
      by (auto split: option.splits)
    from "4.IH"(1)[OF False d] have "visitedSet s1 = visitedSet s - {To edge}" .
    with False have "visitedSet s1 = visitedSet s" by (auto simp: visitedSet_def)
    with "4.IH"(2)[OF False d e] show ?thesis by simp
  qed
qed

lemma edgesOf_targets: "To ` set (edgesOf g v) \<subseteq> targets g"
proof (cases "v \<in> vertices g")
  case True
  then show ?thesis by (auto simp: targets_def)
next
  case False
  then show ?thesis by (simp add: edgesOf_notin)
qed

lemma finite_targets: "finite (vertices g) \<Longrightarrow> finite (targets g)"
  by (simp add: targets_def)

lemma dfsEdges_returns:
  assumes fin: "finite (targets g)"
    and dfs_ok: "\<And>s v edge. card (targets g - insert v (visitedSet s)) < n
                  \<Longrightarrow> \<exists>s'. dfs n g to v edge s = Some s'"
  shows "card (targets g - visitedSet s) \<le> n \<Longrightarrow> To ` set es \<subseteq> targets g
         \<Longrightarrow> \<exists>s'. dfsEdges n g to es s = Some s'"
proof (induction es arbitrary: s)
  case Nil
  then show ?case by simp
next
  case (Cons e es)
  show ?case
  proof (cases "lookupVisited (visited s) (To e)")
    case True
    with Cons show ?thesis by simp
  next
    case False
    then have nv: "To e \<notin> visitedSet s" by (simp add: visitedSet_def)
    from Cons.prems have "To e \<in> targets g" by simp
    with nv have m: "To e \<in> targets g - visitedSet s" by simp
    have "targets g - insert (To e) (visitedSet s) = (targets g - visitedSet s) - {To e}"
      by auto
    moreover have "card ((targets g - visitedSet s) - {To e}) < card (targets g - visitedSet s)"
      using m fin by (intro card_Diff1_less) auto
    ultimately have "card (targets g - insert (To e) (visitedSet s)) < n"
      using Cons.prems(1) by simp
    from dfs_ok[OF this] obtain s1 where d: "dfs n g to (To e) (Some e) s = Some s1"
      by blast
    from dfs_visitedSet(1)[OF d] nv have "visitedSet s1 = visitedSet s" by simp
    with Cons.prems have "card (targets g - visitedSet s1) \<le> n" "To ` set es \<subseteq> targets g"
      by simp_all
    from Cons.IH[OF this] obtain s' where "dfsEdges n g to es s1 = Some s'" by blast
    with False d show ?thesis by simp
  qed
qed

lemma dfs_returns:
  assumes fin: "finite (targets g)"
  shows "card (targets g - insert v (visitedSet s)) < n \<Longrightarrow> \<exists>s'. dfs n g to v edge s = Some s'"
proof (induction n arbitrary: s v edge)
  case 0
  then show ?case by simp
next
  case (Suc n)
  define s1 where "s1 = s\<lparr>visited := (visited s)(v \<mapsto> True)\<rparr>"
  define state_g2 where "state_g2 = (case edge of None \<Rightarrow> s1 | Some e \<Rightarrow> s1\<lparr>path := path s1 @ [e]\<rparr>)"
  have vs: "visitedSet state_g2 = insert v (visitedSet s)"
    by (auto simp: state_g2_def s1_def visitedSet_def lookupVisited_def split: option.splits)
  show ?case
  proof (cases "v = to")
    case True
    then show ?thesis by (simp add: Let_def)
  next
    case False
    from Suc.prems vs have "card (targets g - visitedSet state_g2) \<le> n" by simp
    from dfsEdges_returns[OF fin Suc.IH this edgesOf_targets]
    obtain s3 where "dfsEdges n g to (edgesOf g v) state_g2 = Some s3" by blast
    with False show ?thesis unfolding s1_def state_g2_def by (simp add: Let_def)
  qed
qed

lemma Paths_returns:
  assumes "finite (vertices g)" and "card (targets g) < n"
  shows "\<exists>r. Paths n (Some g) from to = Some r"
proof -
  let ?s0 = "\<lparr>visited = Map.empty, path = [], paths = []\<rparr> :: 'a dfs_state"
  have fin: "finite (targets g)" using assms(1) by (rule finite_targets)
  have "card (targets g - insert from (visitedSet ?s0)) \<le> card (targets g)"
    using fin by (intro card_mono) auto
  with assms(2) have "card (targets g - insert from (visitedSet ?s0)) < n" by simp
  from dfs_returns[OF fin this] obtain s' where "dfs n g to from None ?s0 = Some s'" by blast
  then show ?thesis by (simp add: Paths_def)
qed

lemma dfs_fuel_mono:
  "dfs n g to v edge s = Some s' \<Longrightarrow> n \<le> m \<Longrightarrow> dfs m g to v edge s = Some s'"
  "dfsEdges n g to es s = Some s'' \<Longrightarrow> n \<le> m \<Longrightarrow> dfsEdges m g to es s = Some s''"
proof (induction n g to v edge s and n g to es s arbitrary: s' m and s'' m
    rule: dfs_dfsEdges.induct)
  case (1 g to v edge s)
  then show ?case by simp
next
  case (2 n g to v edge s)
  from "2.prems"(2) obtain k where m: "m = Suc k" and nk: "n \<le> k"
    by (cases m) auto
  define s1 where "s1 = s\<lparr>visited := (visited s)(v \<mapsto> True)\<rparr>"
  define state_g2 where "state_g2 = (case edge of None \<Rightarrow> s1 | Some e \<Rightarrow> s1\<lparr>path := path s1 @ [e]\<rparr>)"
  show ?case
  proof (cases "v = to")
    case True
    with "2.prems"(1) show ?thesis by (simp add: m Let_def)
  next
    case False
    from "2.prems"(1) False obtain s3 where
      r: "dfsEdges n g to (edgesOf g v) state_g2 = Some s3"
      unfolding s1_def state_g2_def by (auto simp: Let_def split: option.splits)
    from "2.IH"[OF s1_def state_g2_def False r nk]
    have "dfsEdges k g to (edgesOf g v) state_g2 = Some s3" .
    with r "2.prems"(1) False show ?thesis
      unfolding s1_def state_g2_def by (simp add: m Let_def)
  qed
next
  case (3 n g to s)
  then show ?case by simp
next
  case (4 n g to edge edges s)
  show ?case
  proof (cases "lookupVisited (visited s) (To edge)")
    case True
    with "4.prems" have "dfsEdges n g to edges s = Some s''" by simp
    from "4.IH"(3)[OF _ this "4.prems"(2)] True show ?thesis by simp
  next
    case False
    with "4.prems" obtain s1 where
      d: "dfs n g to (To edge) (Some edge) s = Some s1" and
      e: "dfsEdges n g to edges s1 = Some s''"
      by (auto split: option.splits)
    from "4.IH"(1)[OF False d "4.prems"(2)] "4.IH"(2)[OF False d e "4.prems"(2)] False
    show ?thesis by simp
  qed
qed

lemma Paths_fuel_mono:
  "Paths n gp from to = Some r \<Longrightarrow> n \<le> m \<Longrightarrow> Paths m gp from to = Some r"
  by (auto simp: Paths_def split: option.splits dest: dfs_fuel_mono(1))

lemma gcyc_targets: "targets gcyc = {va, vb}"
  by (auto simp: targets_def gcyc_vertices) (auto simp: gcyc_def AddEdge_no_tags)

text \<open>
  Claim C9. On every graph with finitely many vertices, cycles or not, \<^verbatim>\<open>Paths(from, to)\<close>
  returns: there is a result \<open>r\<close> that \<^verbatim>\<open>Paths\<close> returns under every bound on the depth
  of nested calls that exceeds the number of vertices some edge leads to. A call of
  \<^verbatim>\<open>dfs\<close> marks its vertex and descends into unmarked vertices only, so each nested call
  has one more of these vertices marked.
\<close>

theorem Paths_terminates:
  assumes "finite (vertices g)"
  shows "\<exists>r. \<forall>n. card (targets g) < n \<longrightarrow> Paths n (Some g) from to = Some r"
proof -
  from Paths_returns[OF assms, of "Suc (card (targets g))" "from" "to"]
  obtain r where r: "Paths (Suc (card (targets g))) (Some g) from to = Some r" by auto
  have "\<forall>n. card (targets g) < n \<longrightarrow> Paths n (Some g) from to = Some r"
    using Paths_fuel_mono[OF r] by auto
  then show ?thesis ..
qed

theorem Paths_terminates_witness:
  "finite (vertices gcyc) \<and> card (targets gcyc) < 3
   \<and> (\<exists>r. Paths 3 (Some gcyc) va vc = Some r)"
proof -
  have f: "finite (vertices gcyc)" by (simp add: gcyc_vertices)
  have c: "card (targets gcyc) < 3" by (simp add: gcyc_targets)
  from Paths_terminates [OF f, of va vc] c
  have "\<exists>r. Paths 3 (Some gcyc) va vc = Some r" by blast
  with f c show ?thesis by simp
qed

lemma Paths_g1: "Paths 4 (Some g1) va vc = Some [[eab, ebc], [ebc, ebd, edc]]"
  by (simp add: Paths_def eval_nat_numeral g1_edges lookupVisited_def Let_def)

text \<open>
  Claim C1: every path that \<^verbatim>\<open>Paths(from, to)\<close> returns leads from \<^verbatim>\<open>from\<close> to \<^verbatim>\<open>to\<close>
  through edges that follow one another. The code does not do so on \<open>g1\<close> (a -> b,
  b -> c, b -> d, d -> c) for \<^verbatim>\<open>Paths(a, c)\<close>. On leaving a vertex \<^verbatim>\<open>dfs\<close> drops the first
  edge of \<^verbatim>\<open>path\<close> (\<^verbatim>\<open>path = path[1:]\<close>), not the last one: when the search comes back
  to b from c, \<^verbatim>\<open>path\<close> holds the edge b -> c and no longer a -> b. The second path
  returned is b -> c, b -> d, d -> c: it starts at b, and its first edge ends at c
  while its second starts at b. The run on backing arrays, here with arrays that
  double, returns the same two paths.
\<close>

theorem Paths_pops_head:
  "Paths 4 (Some g1) va vc = Some [[eab, ebc], [ebc, ebd, edc]]
   \<and> PathsA (\<lambda>k. 2 * k) 4 (Some g1) va vc = Some [[eab, ebc], [ebc, ebd, edc]]
   \<and> \<not> connects va vc [ebc, ebd, edc]
   \<and> From (hd [ebc, ebd, edc]) = vb
   \<and> To ebc \<noteq> From ebd"
proof -
  have "PathsA (\<lambda>k. 2 * k) 4 (Some g1) va vc = Paths 4 (Some g1) va vc"
    by (rule PathsA_Paths) simp
  then show ?thesis using Paths_g1 by (simp add: connects_def)
qed

end
